theory Spec2Isabelle
  imports Main
begin

section \<open>DiamondFinder (hacks/diamonds.py): data model\<close>

text \<open>
  A Python \<open>str\<close> is a sequence of Unicode code points; a code point is a natural
  number. A \<open>bytearray\<close> is a list of naturals below 256 (the store into the array
  checks the range). The newline character is code point 10.
\<close>

type_synonym pystr = "nat list"

definition NL :: nat where
  "NL = 10"

text \<open>
  A tag is a Python tuple of location components: path strings and line numbers.
\<close>

datatype tagc = TInt int | TStr pystr

type_synonym tag = "tagc list"

text \<open>The exceptions that the scanning code can raise.\<close>

datatype error = ValueError | UnicodeDecodeError | OSError

text \<open>
  The object is a \<open>defaultdict(list)\<close> with four configuration attributes. The
  dictionary itself is the field \<open>index\<close>. The effects on the outside world are
  logs: \<open>stdout\<close> what \<open>print\<close> wrote, \<open>warnings\<close> the calls of
  \<open>warnings.warn\<close> (line number and tag of the message), \<open>opened\<close> the
  paths handed to \<open>open\<close>. The field \<open>recorded\<close> is a history variable:
  every call of \<open>add_diamond\<close>, in order; no code reads it.
\<close>

record finder =
  chars :: pystr
  minlen :: int
  maxlen :: int
  notify_diamonds :: bool
  index :: "pystr \<rightharpoonup> tag list"
  stdout :: "(pystr \<times> tag) list"
  warnings :: "(int \<times> tag) list"
  opened :: "pystr list"
  recorded :: "(pystr \<times> tag) list"

text \<open>
  A call either returns or raises; in both cases the object is left in some state.
\<close>

datatype 'a outcome = Done 'a | Raised error finder

fun obind :: "'a outcome \<Rightarrow> ('a \<Rightarrow> 'b outcome) \<Rightarrow> 'b outcome" where
  "obind (Done x) f = f x"
| "obind (Raised e s) f = Raised e s"

fun state_of :: "finder outcome \<Rightarrow> finder" where
  "state_of (Done s) = s"
| "state_of (Raised e s) = s"

fun returns :: "'a outcome \<Rightarrow> bool" where
  "returns (Done x) = True"
| "returns (Raised e s) = False"

subsection \<open>Construction\<close>

text \<open>
  \<open>__init__\<close> stores its four arguments and initialises the dictionary with
  \<open>list\<close> as default factory; \<open>fresh\<close> is the object after that. The
  method has no other statement, so no path raises.
\<close>

definition fresh :: "pystr \<Rightarrow> int \<Rightarrow> int \<Rightarrow> bool \<Rightarrow> finder" where
  "fresh cs lo hi notify =
     \<lparr>chars = cs, minlen = lo, maxlen = hi, notify_diamonds = notify,
      index = Map.empty, stdout = [], warnings = [], opened = [], recorded = []\<rparr>"

definition init :: "pystr \<Rightarrow> int \<Rightarrow> int \<Rightarrow> bool \<Rightarrow> finder outcome" where
  "init cs lo hi notify = Done (fresh cs lo hi notify)"

subsection \<open>Recording a match\<close>

text \<open>
  \<open>self[diamond].append(tag)\<close>: a missing key is created with an empty list by the
  default factory, then the tag is appended.
\<close>

definition add_diamond :: "pystr \<Rightarrow> tag \<Rightarrow> finder \<Rightarrow> finder" where
  "add_diamond diamond t s =
     (let s1 = (if notify_diamonds s then s\<lparr>stdout := stdout s @ [(diamond, t)]\<rparr> else s);
          old = (case index s1 diamond of None \<Rightarrow> [] | Some ts \<Rightarrow> ts)
      in s1\<lparr>index := (index s1)(diamond \<mapsto> old @ [t]),
              recorded := recorded s1 @ [(diamond, t)]\<rparr>)"

subsection \<open>Decoding the run buffer\<close>

text \<open>
  \<open>bytes.decode('utf-8')\<close> in strict mode: the well-formed byte sequences of the
  Unicode standard (no overlong forms, no surrogates, nothing above U+10FFFF). The
  result is \<open>None\<close> where Python raises \<open>UnicodeDecodeError\<close>.
\<close>

definition cont :: "nat \<Rightarrow> bool" where
  "cont b = (128 \<le> b \<and> b < 192)"

fun utf8_decode :: "nat list \<Rightarrow> pystr option" where
  "utf8_decode [] = Some []"
| "utf8_decode (b0 # bs) =
     (if b0 < 128 then map_option ((#) b0) (utf8_decode bs)
      else if 194 \<le> b0 \<and> b0 < 224 then
        (case bs of
           b1 # r \<Rightarrow>
             if cont b1
             then map_option ((#) ((b0 - 192) * 64 + (b1 - 128))) (utf8_decode r)
             else None
         | _ \<Rightarrow> None)
      else if 224 \<le> b0 \<and> b0 < 240 then
        (case bs of
           b1 # b2 # r \<Rightarrow>
             if (if b0 = 224 then 160 else 128) \<le> b1
                \<and> b1 < (if b0 = 237 then 160 else 192) \<and> cont b2
             then map_option
                    ((#) ((b0 - 224) * 4096 + (b1 - 128) * 64 + (b2 - 128)))
                    (utf8_decode r)
             else None
         | _ \<Rightarrow> None)
      else if 240 \<le> b0 \<and> b0 < 245 then
        (case bs of
           b1 # b2 # b3 # r \<Rightarrow>
             if (if b0 = 240 then 144 else 128) \<le> b1
                \<and> b1 < (if b0 = 244 then 144 else 192) \<and> cont b2 \<and> cont b3
             then map_option
                    ((#) ((b0 - 240) * 262144 + (b1 - 128) * 4096
                          + (b2 - 128) * 64 + (b3 - 128)))
                    (utf8_decode r)
             else None
         | _ \<Rightarrow> None)
      else None)"

subsection \<open>The line scanner\<close>

text \<open>
  The loop of \<open>scanline\<close> over the characters of the line. Its local state is the
  byte buffer \<open>diamond_array\<close> and \<open>index\<close>. Storing a code point above 255 into a
  \<open>bytearray\<close> raises \<open>ValueError\<close>. The store is always in range, because it is
  reached only with \<open>0 \<le> index < maxlen\<close>.
\<close>

fun scanline_loop ::
  "tag \<Rightarrow> pystr \<Rightarrow> finder \<times> nat list \<times> int \<Rightarrow> (finder \<times> nat list \<times> int) outcome"
where
  "scanline_loop t [] st = Done st"
| "scanline_loop t (c # line) (s, buf, i) =
     (if c \<in> set (chars s) then
        (if i \<ge> maxlen s then scanline_loop t line (s, buf, i)
         else if c > 255 then Raised ValueError s
         else scanline_loop t line (s, buf[nat i := c], i + 1))
      else
        (if minlen s \<le> i \<and> i \<le> maxlen s then
           (case utf8_decode (take (nat i) buf) of
              None \<Rightarrow> Raised UnicodeDecodeError s
            | Some diamond \<Rightarrow> scanline_loop t line (add_diamond diamond t s, buf, 0))
         else scanline_loop t line (s, buf, 0)))"

text \<open>\<open>bytearray(self.maxlen)\<close> raises \<open>ValueError\<close> for a negative count.\<close>

definition scanline :: "pystr \<Rightarrow> tag \<Rightarrow> finder \<Rightarrow> finder outcome" where
  "scanline line t s =
     (if maxlen s < 0 then Raised ValueError s
      else obind (scanline_loop t line (s, replicate (nat (maxlen s)) 0, 0))
                 (\<lambda>st. Done (fst st)))"

subsection \<open>Scanning a string\<close>

text \<open>
  \<open>text.split('\n')\<close>: the pieces between the newlines, so a text with \<open>n\<close>
  newlines has \<open>n + 1\<close> pieces and the empty text has one empty piece. \<open>cur\<close> is
  the piece being read.
\<close>

fun split_acc :: "pystr \<Rightarrow> pystr \<Rightarrow> pystr list" where
  "split_acc cur [] = [cur]"
| "split_acc cur (c # cs) =
     (if c = NL then cur # split_acc [] cs else split_acc (cur @ [c]) cs)"

definition split_nl :: "pystr \<Rightarrow> pystr list" where
  "split_nl text = split_acc [] text"

text \<open>The loop over \<open>enumerate(lines, 1)\<close>; \<open>count\<close> is the running number.\<close>

fun scantext_loop :: "int \<Rightarrow> pystr list \<Rightarrow> tag \<Rightarrow> finder \<Rightarrow> finder outcome" where
  "scantext_loop count [] t s = Done s"
| "scantext_loop count (line # lines) t s =
     obind (scanline (line @ [NL]) (t @ [TInt count]) s)
           (scantext_loop (count + 1) lines t)"

definition scantext :: "pystr \<Rightarrow> tag \<Rightarrow> finder \<Rightarrow> finder outcome" where
  "scantext text t s = scantext_loop 1 (split_nl text) t s"

subsection \<open>Scanning a stream\<close>

text \<open>
  A text stream is the sequence of outcomes of its \<open>readline\<close> calls: a line, or a
  \<open>UnicodeDecodeError\<close>. Once the sequence is used up \<open>readline\<close> returns the
  empty string, so a stream that never ends is outside this model. The loop leaves
  at the first empty string; the \<open>finally\<close> clause advances \<open>count\<close> on
  both paths. An exception of \<open>scanline\<close> is raised in the \<open>else\<close> clause,
  which the \<open>except\<close> clause does not guard.
\<close>

datatype readres = Line pystr | DecodeFail

fun scanstream_loop :: "int \<Rightarrow> readres list \<Rightarrow> tag \<Rightarrow> finder \<Rightarrow> finder outcome" where
  "scanstream_loop count [] t s = Done s"
| "scanstream_loop count (DecodeFail # rest) t s =
     scanstream_loop (count + 1) rest t (s\<lparr>warnings := warnings s @ [(count, t)]\<rparr>)"
| "scanstream_loop count (Line line # rest) t s =
     (if line = [] then Done s
      else obind (scanline line (t @ [TInt count]) s)
                 (scanstream_loop (count + 1) rest t))"

definition scanstream :: "readres list \<Rightarrow> tag \<Rightarrow> finder \<Rightarrow> finder outcome" where
  "scanstream stream t s = scanstream_loop 1 stream t s"

text \<open>
  The same loop for any stream object: \<open>readline\<close> maps the state of the stream
  to the outcome of the call and the state after it. Nothing makes such a stream
  end, so the loop is a partial function: \<open>None\<close> is a scan that never returns.
  \<open>list_readline\<close> is the stream that ends, read from a list of outcomes, and
  \<open>always_fails\<close> is a stream on which every call raises
  \<open>UnicodeDecodeError\<close>, as a UTF-8 file stream does once its decoder holds a
  truncated multibyte sequence.
\<close>

partial_function (option) scanstream_any ::
  "('st \<Rightarrow> readres \<times> 'st) \<Rightarrow> int \<Rightarrow> 'st \<Rightarrow> tag \<Rightarrow> finder \<Rightarrow> finder outcome option"
where
  "scanstream_any readline count st t s =
     (case readline st of
        (DecodeFail, st') \<Rightarrow>
          scanstream_any readline (count + 1) st' t (s\<lparr>warnings := warnings s @ [(count, t)]\<rparr>)
      | (Line line, st') \<Rightarrow>
          if line = [] then Some (Done s)
          else (case scanline line (t @ [TInt count]) s of
                  Raised e s' \<Rightarrow> Some (Raised e s')
                | Done s' \<Rightarrow> scanstream_any readline (count + 1) st' t s'))"


fun list_readline :: "readres list \<Rightarrow> readres \<times> readres list" where
  "list_readline [] = (Line [], [])"
| "list_readline (x # xs) = (x, xs)"

definition always_fails :: "unit \<Rightarrow> readres \<times> unit" where
  "always_fails u = (DecodeFail, u)"

subsection \<open>The public entry point\<close>

datatype source = SrcNone | SrcStr pystr | SrcStream "readres list" | SrcOther

datatype tagarg = TagNone | TagTuple tag | TagOther tagc

definition scan :: "source \<Rightarrow> tagarg \<Rightarrow> finder \<Rightarrow> finder outcome" where
  "scan src targ s =
     (let t = (case targ of TagNone \<Rightarrow> [] | TagTuple tt \<Rightarrow> tt | TagOther x \<Rightarrow> [x])
      in case src of
           SrcNone \<Rightarrow> Done s
         | SrcStr text \<Rightarrow> scantext text t s
         | SrcStream stream \<Rightarrow> scanstream stream t s
         | SrcOther \<Rightarrow> Done s)"

subsection \<open>Files and directories\<close>

text \<open>
  The operating system, as far as the code uses it. \<open>path_suffix\<close> is
  \<open>pathlib.Path(file).suffix\<close>, \<open>os_relpath\<close> is \<open>os.path.relpath\<close>,
  \<open>os_join\<close> is \<open>os.path.join\<close>, \<open>os_walk\<close> and \<open>os_listdir\<close> list a
  directory (\<open>os.listdir\<close> raises for a path that is no directory),
  \<open>os_isfile\<close> is \<open>os.path.isfile\<close>, and \<open>fs_open\<close> gives the stream of a
  file that can be opened.
\<close>

record os =
  path_suffix :: "pystr \<Rightarrow> pystr"
  os_relpath :: "pystr \<Rightarrow> pystr \<Rightarrow> pystr"
  os_join :: "pystr \<Rightarrow> pystr \<Rightarrow> pystr"
  os_walk :: "pystr \<Rightarrow> (pystr \<times> pystr list \<times> pystr list) list"
  os_listdir :: "pystr \<Rightarrow> pystr list option"
  os_isfile :: "pystr \<Rightarrow> bool"
  fs_open :: "pystr \<rightharpoonup> readres list"

text \<open>
  An \<open>include\<close> or \<open>exclude\<close> argument is \<open>None\<close>, one string, or a list of
  strings; one string is wrapped into a list before the membership test.
\<close>

datatype extarg = ExtStr pystr | ExtList "pystr list"

fun ext_members :: "extarg \<Rightarrow> pystr list" where
  "ext_members (ExtStr e) = [e]"
| "ext_members (ExtList es) = es"

definition check_extension :: "os \<Rightarrow> pystr \<Rightarrow> extarg option \<Rightarrow> extarg option \<Rightarrow> bool" where
  "check_extension sys file include exclude =
     (let extension = path_suffix sys file in
      if (case include of None \<Rightarrow> False | Some inc \<Rightarrow> extension \<in> set (ext_members inc))
      then False
      else if (case exclude of None \<Rightarrow> False | Some exc \<Rightarrow> extension \<in> set (ext_members exc))
      then False
      else True)"

definition scanfile ::
  "os \<Rightarrow> pystr \<Rightarrow> extarg option \<Rightarrow> extarg option \<Rightarrow> pystr option \<Rightarrow> tag \<Rightarrow> finder
     \<Rightarrow> finder outcome"
where
  "scanfile sys file include exclude relp t s =
     (if \<not> check_extension sys file include exclude then Done s
      else
        let filetag = (case relp of None \<Rightarrow> file | Some base \<Rightarrow> os_relpath sys file base);
            t' = t @ [TStr filetag];
            s1 = s\<lparr>opened := opened s @ [file]\<rparr>
        in case fs_open sys file of
             None \<Rightarrow> Raised OSError s1
           | Some stream \<Rightarrow> scanstream stream t' s1)"

text \<open>
  The inner loop of the deep scan over the files of one directory of the walk, the
  outer loop over the walk, and the loop of the shallow scan over the directory's
  entries.
\<close>

fun scan_files ::
  "os \<Rightarrow> pystr \<Rightarrow> pystr list \<Rightarrow> extarg option \<Rightarrow> extarg option \<Rightarrow> pystr \<Rightarrow> tag \<Rightarrow> finder
     \<Rightarrow> finder outcome"
where
  "scan_files sys root [] include exclude directory t s = Done s"
| "scan_files sys root (file # files) include exclude directory t s =
     obind (scanfile sys (os_join sys root file) include exclude (Some directory) t s)
           (scan_files sys root files include exclude directory t)"

fun scan_walk ::
  "os \<Rightarrow> (pystr \<times> pystr list \<times> pystr list) list \<Rightarrow> extarg option \<Rightarrow> extarg option
     \<Rightarrow> pystr \<Rightarrow> tag \<Rightarrow> finder \<Rightarrow> finder outcome"
where
  "scan_walk sys [] include exclude directory t s = Done s"
| "scan_walk sys ((root, dirs, files) # rest) include exclude directory t s =
     obind (scan_files sys root files include exclude directory t s)
           (scan_walk sys rest include exclude directory t)"

fun scan_listing ::
  "os \<Rightarrow> pystr list \<Rightarrow> extarg option \<Rightarrow> extarg option \<Rightarrow> pystr \<Rightarrow> tag \<Rightarrow> finder
     \<Rightarrow> finder outcome"
where
  "scan_listing sys [] include exclude directory t s = Done s"
| "scan_listing sys (file # files) include exclude directory t s =
     (let fullpath = os_join sys directory file in
      if os_isfile sys fullpath
      then obind (scanfile sys fullpath include exclude (Some directory) t s)
                 (scan_listing sys files include exclude directory t)
      else scan_listing sys files include exclude directory t s)"

definition scandir ::
  "os \<Rightarrow> pystr \<Rightarrow> bool \<Rightarrow> tag \<Rightarrow> extarg option \<Rightarrow> extarg option \<Rightarrow> finder \<Rightarrow> finder outcome"
where
  "scandir sys directory deep t include exclude s =
     (let dirtag = t @ [TStr directory] in
      if deep then scan_walk sys (os_walk sys directory) include exclude directory dirtag s
      else case os_listdir sys directory of
             None \<Rightarrow> Raised OSError s
           | Some files \<Rightarrow> scan_listing sys files include exclude directory dirtag s)"

subsection \<open>Sequences of operations\<close>

text \<open>
  The methods of the object that scan, and \<open>add_diamond\<close> itself. After a call that
  raised, the caller still holds the object, in the state the call left it in.
\<close>

datatype operation =
    OpScan source tagarg
  | OpScanline pystr tag
  | OpScantext pystr tag
  | OpScanstream "readres list" tag
  | OpScanfile pystr "extarg option" "extarg option" "pystr option" tag
  | OpScandir pystr bool tag "extarg option" "extarg option"
  | OpAddDiamond pystr tag

fun exec :: "os \<Rightarrow> operation \<Rightarrow> finder \<Rightarrow> finder outcome" where
  "exec sys (OpScan src targ) s = scan src targ s"
| "exec sys (OpScanline line t) s = scanline line t s"
| "exec sys (OpScantext text t) s = scantext text t s"
| "exec sys (OpScanstream stream t) s = scanstream stream t s"
| "exec sys (OpScanfile file inc exc relp t) s = scanfile sys file inc exc relp t s"
| "exec sys (OpScandir directory deep t inc exc) s = scandir sys directory deep t inc exc s"
| "exec sys (OpAddDiamond diamond t) s = Done (add_diamond diamond t s)"

fun run :: "os \<Rightarrow> operation list \<Rightarrow> finder \<Rightarrow> finder" where
  "run sys [] s = s"
| "run sys (op # ops) s = run sys ops (state_of (exec sys op s))"

text \<open>The tags recorded for one diamond text, in the order of recording.\<close>

definition tags_of :: "pystr \<Rightarrow> (pystr \<times> tag) list \<Rightarrow> tag list" where
  "tags_of d ms = map snd (filter (\<lambda>m. fst m = d) ms)"

text \<open>
  The dictionary that a history of recorded matches determines: a key for every
  text that occurs, bound to its tags.
\<close>

definition index_of :: "(pystr \<times> tag) list \<Rightarrow> pystr \<rightharpoonup> tag list" where
  "index_of ms d = (if tags_of d ms = [] then None else Some (tags_of d ms))"

definition consistent :: "finder \<Rightarrow> bool" where
  "consistent s = (\<forall>d. index s d = index_of (recorded s) d)"

definition extends :: "finder \<Rightarrow> finder \<Rightarrow> bool" where
  "extends s s' =
     ((\<exists>ms. recorded s' = recorded s @ ms) \<and> (consistent s \<longrightarrow> consistent s')
      \<and> chars s' = chars s \<and> minlen s' = minlen s \<and> maxlen s' = maxlen s)"

subsection \<open>Descriptions of \<open>scanText\<close>\<close>

text \<open>
  The specification says: split on line boundaries, and call the line scanner once
  per line, the tag extended by the 1-based line number. \<open>join_nl\<close> puts newlines
  between lines and \<open>enumerate_from\<close> numbers a list. \<open>scan_each\<close> is the
  specification's scan: every call is made, and the next call goes on from the
  state the one before left, whether it returned or raised. \<open>call_seq\<close> makes
  the calls one after the other until one raises.
\<close>

fun join_nl :: "pystr list \<Rightarrow> pystr" where
  "join_nl [] = []"
| "join_nl [l] = l"
| "join_nl (l # l' # ls) = l @ NL # join_nl (l' # ls)"

fun enumerate_from :: "int \<Rightarrow> 'a list \<Rightarrow> (int \<times> 'a) list" where
  "enumerate_from k [] = []"
| "enumerate_from k (x # xs) = (k, x) # enumerate_from (k + 1) xs"

fun scan_each :: "(pystr \<times> tag) list \<Rightarrow> finder \<Rightarrow> finder" where
  "scan_each [] s = s"
| "scan_each ((line, t) # calls) s = scan_each calls (state_of (scanline line t s))"

fun call_seq :: "(pystr \<times> tag) list \<Rightarrow> finder \<Rightarrow> finder outcome" where
  "call_seq [] s = Done s"
| "call_seq ((line, t) # calls) s = obind (scanline line t s) (call_seq calls)"

subsection \<open>What a scan does to the object\<close>





fun finish :: "error option \<Rightarrow> finder \<Rightarrow> finder outcome" where
  "finish None s = Done s"
| "finish (Some e) s = Raised e s"




subsection \<open>Relations that every scan preserves\<close>

text \<open>
  A relation between the state before and the state after is \<open>stable\<close> when it is
  reflexive and transitive and holds across the two updates that scanning makes:
  recording a match and logging a warning. It is \<open>stable_fs\<close> when it also holds
  across logging an opened file.
\<close>

definition stable :: "(finder \<Rightarrow> finder \<Rightarrow> bool) \<Rightarrow> bool" where
  "stable R =
     ((\<forall>s. R s s) \<and> (\<forall>a b c. R a b \<longrightarrow> R b c \<longrightarrow> R a c)
      \<and> (\<forall>d t s. R s (add_diamond d t s))
      \<and> (\<forall>s w. R s (s\<lparr>warnings := w\<rparr>)))"

definition stable_fs :: "(finder \<Rightarrow> finder \<Rightarrow> bool) \<Rightarrow> bool" where
  "stable_fs R = (stable R \<and> (\<forall>s p. R s (s\<lparr>opened := p\<rparr>)))"

subsection \<open>Example data\<close>

text \<open>
  An ASCII literal as a Python string, the hexadecimal alphabet of the module's
  \<open>main\<close>, and a small file system: the directory \<open>repo\<close> with the files
  \<open>a.txt\<close>, \<open>b.txt\<close> and \<open>c.lock\<close>, each holding the run \<open>c0ffee\<close>.
  \<open>posix_suffix\<close> is the suffix of a path's last component, as \<open>pathlib\<close>
  gives it for a path without a trailing slash.
\<close>

definition str :: "string \<Rightarrow> pystr" where
  "str cs = map of_char cs"

definition hex :: pystr where
  "hex = str ''0123456789abcdef''"

definition posix_suffix :: "pystr \<Rightarrow> pystr" where
  "posix_suffix p =
     (let name = rev (takeWhile (\<lambda>c. c \<noteq> 47) (rev p));
          e = rev (takeWhile (\<lambda>c. c \<noteq> 46) (rev name))
      in if 46 \<in> set name
         then (if e = [] then [] else if Suc (length e) = length name then [] else 46 # e)
         else [])"

definition example_os :: os where
  "example_os =
     \<lparr>path_suffix = posix_suffix,
      os_relpath = (\<lambda>p base. drop (Suc (length base)) p),
      os_join = (\<lambda>d f. d @ 47 # f),
      os_walk = (\<lambda>d. if d = str ''repo''
                       then [(str ''repo'', [], [str ''a.txt'', str ''b.txt'', str ''c.lock''])]
                       else []),
      os_listdir = (\<lambda>d. if d = str ''repo''
                          then Some [str ''a.txt'', str ''b.txt'', str ''c.lock'']
                          else None),
      os_isfile = (\<lambda>p. p \<in> {str ''repo/a.txt'', str ''repo/b.txt'', str ''repo/c.lock''}),
      fs_open = [str ''repo/a.txt'' \<mapsto> [Line (str ''key c0ffee'' @ [NL])],
                 str ''repo/b.txt'' \<mapsto> [Line (str ''x'' @ [NL]), Line (str ''c0ffee'' @ [NL])],
                 str ''repo/c.lock'' \<mapsto> [Line (str ''c0ffee'' @ [NL])]]\<rparr>"

section \<open>Properties of the line scanner\<close>

text \<open>Evaluation of list functions at numerals.\<close>

lemma replicate_numeral: "replicate (numeral k) x = x # replicate (pred_numeral k) x"
  by (simp add: numeral_eq_Suc)

lemma list_update_numeral: "(x # xs)[numeral k := y] = x # xs[pred_numeral k := y]"
  by (simp add: numeral_eq_Suc)

lemmas eval_scanline = scanline_def fresh_def add_diamond_def replicate_numeral
  list_update_numeral NL_def

lemmas eval_all = eval_scanline str_def hex_def posix_suffix_def example_os_def
  scanfile_def check_extension_def scanstream_def scantext_def split_nl_def scandir_def scan_def
  Let_def init_def

lemma add_diamond_config [simp]:
  "chars (add_diamond d t s) = chars s"
  "minlen (add_diamond d t s) = minlen s"
  "maxlen (add_diamond d t s) = maxlen s"
  "notify_diamonds (add_diamond d t s) = notify_diamonds s"
  "warnings (add_diamond d t s) = warnings s"
  "opened (add_diamond d t s) = opened s"
  by (simp_all add: add_diamond_def Let_def)

lemma add_diamond_recorded [simp]:
  "recorded (add_diamond d t s) = recorded s @ [(d, t)]"
  by (simp add: add_diamond_def Let_def)

text \<open>Bytes below 128 decode to themselves.\<close>

lemma utf8_decode_ascii: "\<forall>b\<in>set bs. b < 128 \<Longrightarrow> utf8_decode bs = Some bs"
  by (induction bs) simp_all

text \<open>Scanning a line in two parts: the second part starts where the first ended.\<close>

lemma scanline_loop_append:
  "scanline_loop t (xs @ ys) st = obind (scanline_loop t xs st) (scanline_loop t ys)"
proof (induction xs arbitrary: st)
  case Nil
  show ?case by simp
next
  case (Cons c xs)
  obtain s buf i where st: "st = (s, buf, i)" by (cases st)
  show ?case unfolding st
    by (simp add: Cons.IH split: option.split)
qed

text \<open>
  A run of alphabet characters only fills the buffer, up to its capacity; the index
  stops at \<open>maxlen\<close>.
\<close>

lemma scanline_loop_run:
  assumes "\<forall>c\<in>set r. c \<in> set (chars s) \<and> c \<le> 255"
    and "0 \<le> i" and "i \<le> maxlen s" and "length buf = nat (maxlen s)"
  shows "\<exists>buf'. scanline_loop t r (s, buf, i) = Done (s, buf', min (i + int (length r)) (maxlen s))
           \<and> length buf' = length buf
           \<and> take (nat (min (i + int (length r)) (maxlen s))) buf'
               = take (nat i) buf @ take (nat (maxlen s - i)) r"
  using assms
proof (induction r arbitrary: buf i)
  case Nil
  then show ?case by simp
next
  case (Cons c r)
  show ?case
  proof (cases "i \<ge> maxlen s")
    case True
    with Cons.prems have i: "i = maxlen s" by simp
    from Cons.IH[of i buf] Cons.prems i show ?thesis by (auto simp: min_def)
  next
    case False
    have lt: "nat i < length buf" using False Cons.prems by simp
    from Cons.IH[of "i + 1" "buf[nat i := c]"] Cons.prems False
    obtain buf' where b: "scanline_loop t r (s, buf[nat i := c], i + 1)
         = Done (s, buf', min (i + 1 + int (length r)) (maxlen s))"
       "length buf' = length buf"
       "take (nat (min (i + 1 + int (length r)) (maxlen s))) buf'
               = take (nat (i + 1)) (buf[nat i := c]) @ take (nat (maxlen s - (i + 1))) r"
      by auto
    have n: "nat (i + 1) = Suc (nat i)" using Cons.prems by simp
    have t1: "take (nat (i + 1)) (buf[nat i := c]) = take (nat i) buf @ [c]"
      unfolding n using lt by (simp add: take_Suc_conv_app_nth)
    have t2: "take (nat (maxlen s - i)) (c # r) = c # take (nat (maxlen s - (i + 1))) r"
    proof -
      have "nat (maxlen s - i) = Suc (nat (maxlen s - (i + 1)))" using False by simp
      then show ?thesis by simp
    qed
    have e: "i + int (length (c # r)) = i + 1 + int (length r)" by simp
    have step: "scanline_loop t (c # r) (s, buf, i) = scanline_loop t r (s, buf[nat i := c], i + 1)"
      using False Cons.prems by simp
    show ?thesis unfolding e step t2 using b t1 by simp
  qed
qed

text \<open>
  For any alphabet, a run either stops the index at its capped length or raises at a
  code point above 255; the object is untouched.
\<close>

lemma scanline_loop_run_any:
  assumes "\<forall>c\<in>set r. c \<in> set (chars s)" and "0 \<le> i" and "i \<le> maxlen s"
  shows "(\<exists>buf'. scanline_loop t r (s, buf, i)
                   = Done (s, buf', min (i + int (length r)) (maxlen s)))
         \<or> scanline_loop t r (s, buf, i) = Raised ValueError s"
  using assms
proof (induction r arbitrary: buf i)
  case Nil
  then show ?case by simp
next
  case (Cons c r)
  show ?case
  proof (cases "i \<ge> maxlen s")
    case True
    with Cons.prems have i: "i = maxlen s" by simp
    from Cons.IH[of i buf] Cons.prems i show ?thesis by (auto simp: min_def)
  next
    case False
    show ?thesis
    proof (cases "c > 255")
      case True
      with False Cons.prems show ?thesis by simp
    next
      case F: False
      have e: "i + int (length (c # r)) = i + 1 + int (length r)" by simp
      have step: "scanline_loop t (c # r) (s, buf, i)
                  = scanline_loop t r (s, buf[nat i := c], i + 1)"
        using False F Cons.prems by simp
      from Cons.IH[of "i + 1" "buf[nat i := c]"] Cons.prems False
      show ?thesis unfolding e step by simp
    qed
  qed
qed

text \<open>
  With an alphabet of code points below 128 the loop never raises: every byte of the
  buffer stays below 128, so the decoding succeeds. After a character outside the
  alphabet the index is 0.
\<close>

lemma scanline_loop_safe:
  assumes "\<forall>c\<in>set (chars s). c < 128" and "\<forall>b\<in>set buf. b < 128"
    and "0 \<le> i" and "i \<le> maxlen s" and "length buf = nat (maxlen s)"
  shows "\<exists>s' buf' i'. scanline_loop t line (s, buf, i) = Done (s', buf', i')
           \<and> chars s' = chars s \<and> minlen s' = minlen s \<and> maxlen s' = maxlen s
           \<and> (\<forall>b\<in>set buf'. b < 128) \<and> 0 \<le> i' \<and> i' \<le> maxlen s
           \<and> length buf' = length buf
           \<and> (line \<noteq> [] \<and> last line \<notin> set (chars s) \<longrightarrow> i' = 0)"
  using assms
proof (induction line arbitrary: s buf i)
  case Nil
  then show ?case by simp
next
  case (Cons c line)
  show ?case
  proof (cases "c \<in> set (chars s)")
    case True
    note inalpha = True
    show ?thesis
    proof (cases "i \<ge> maxlen s")
      case True
      from Cons.IH[of s buf i] Cons.prems True inalpha show ?thesis by auto
    next
      case False
      have c: "c < 128" using inalpha Cons.prems by blast
      have b: "\<forall>b\<in>set (buf[nat i := c]). b < 128"
        using Cons.prems(2) c by (metis insert_iff set_update_subset_insert subsetD)
      have step: "scanline_loop t (c # line) (s, buf, i)
                  = scanline_loop t line (s, buf[nat i := c], i + 1)"
        using False inalpha c by simp
      from Cons.IH[of s "buf[nat i := c]" "i + 1"] Cons.prems False b
      show ?thesis unfolding step using inalpha by auto
    qed
  next
    case False
    note nonalpha = False
    show ?thesis
    proof (cases "minlen s \<le> i \<and> i \<le> maxlen s")
      case True
      have "\<forall>b\<in>set (take (nat i) buf). b < 128"
        using Cons.prems(2) by (meson in_set_takeD)
      then have d: "utf8_decode (take (nat i) buf) = Some (take (nat i) buf)"
        by (rule utf8_decode_ascii)
      have step: "scanline_loop t (c # line) (s, buf, i)
                  = scanline_loop t line (add_diamond (take (nat i) buf) t s, buf, 0)"
        using True nonalpha d by simp
      from Cons.IH[of "add_diamond (take (nat i) buf) t s" buf 0] Cons.prems
      show ?thesis unfolding step using nonalpha by auto
    next
      case False
      have step: "scanline_loop t (c # line) (s, buf, i) = scanline_loop t line (s, buf, 0)"
        using False nonalpha by auto
      from Cons.IH[of s buf 0] Cons.prems
      show ?thesis unfolding step using nonalpha by auto
    qed
  qed
qed

lemma scanline_total:
  assumes "\<forall>c\<in>set (chars s). c < 128" and "0 \<le> maxlen s"
  shows "\<exists>s'. scanline line t s = Done s' \<and> chars s' = chars s
           \<and> minlen s' = minlen s \<and> maxlen s' = maxlen s"
proof -
  have "\<exists>s' buf' i'. scanline_loop t line (s, replicate (nat (maxlen s)) 0, 0) = Done (s', buf', i')
           \<and> chars s' = chars s \<and> minlen s' = minlen s \<and> maxlen s' = maxlen s
           \<and> (\<forall>b\<in>set buf'. b < 128) \<and> 0 \<le> i' \<and> i' \<le> maxlen s
           \<and> length buf' = length (replicate (nat (maxlen s)) (0::nat))
           \<and> (line \<noteq> [] \<and> last line \<notin> set (chars s) \<longrightarrow> i' = 0)"
    by (rule scanline_loop_safe) (use assms in auto)
  then show ?thesis using assms(2) by (auto simp: scanline_def)
qed

text \<open>
  What a returning loop leaves: the configuration and the size of the buffer are
  unchanged, the index is within the buffer, and it is 0 after a character outside
  the alphabet.
\<close>

lemma scanline_loop_frame:
  assumes "scanline_loop t line (s, buf, i) = Done (s', buf', i')"
    and "0 \<le> i" and "i \<le> maxlen s"
  shows "chars s' = chars s \<and> minlen s' = minlen s \<and> maxlen s' = maxlen s
           \<and> length buf' = length buf \<and> 0 \<le> i' \<and> i' \<le> maxlen s
           \<and> (line \<noteq> [] \<and> last line \<notin> set (chars s) \<longrightarrow> i' = 0)"
  using assms
proof (induction line arbitrary: s buf i)
  case Nil
  then show ?case by simp
next
  case (Cons c line)
  show ?case
  proof (cases "c \<in> set (chars s)")
    case True
    note inalpha = True
    show ?thesis
    proof (cases "i \<ge> maxlen s")
      case True
      with Cons.prems inalpha
      have "scanline_loop t line (s, buf, i) = Done (s', buf', i')" by simp
      from Cons.IH[OF this] Cons.prems inalpha show ?thesis by auto
    next
      case False
      with Cons.prems inalpha
      have "scanline_loop t line (s, buf[nat i := c], i + 1) = Done (s', buf', i')"
        by (simp split: if_splits)
      from Cons.IH[OF this] Cons.prems False inalpha show ?thesis by auto
    qed
  next
    case False
    note nonalpha = False
    show ?thesis
    proof (cases "minlen s \<le> i \<and> i \<le> maxlen s")
      case True
      with Cons.prems nonalpha obtain d where
        d: "scanline_loop t line (add_diamond d t s, buf, 0) = Done (s', buf', i')"
        by (auto split: option.splits)
      then have e: "line = [] \<longrightarrow> i' = 0" by auto
      from Cons.IH[OF d] Cons.prems nonalpha e show ?thesis by auto
    next
      case False
      have "scanline_loop t (c # line) (s, buf, i) = scanline_loop t line (s, buf, 0)"
        using False nonalpha by auto
      with Cons.prems have d: "scanline_loop t line (s, buf, 0) = Done (s', buf', i')" by simp
      then have e: "line = [] \<longrightarrow> i' = 0" by auto
      from Cons.IH[OF d] Cons.prems nonalpha e show ?thesis by auto
    qed
  qed
qed

text \<open>A call that returns has a loop that returns, and so has the scan of a prefix.\<close>

lemma scanline_Done_loop:
  assumes "scanline q t s = Done s1"
  shows "0 \<le> maxlen s \<and> (\<exists>buf1 i1. scanline_loop t q (s, replicate (nat (maxlen s)) 0, 0)
                                        = Done (s1, buf1, i1))"
proof -
  have m0: "0 \<le> maxlen s" using assms by (auto simp: scanline_def split: if_splits)
  show ?thesis
  proof (cases "scanline_loop t q (s, replicate (nat (maxlen s)) 0, 0)")
    case (Done st)
    obtain a b c where "st = (a, b, c)" by (cases st)
    with Done assms m0 show ?thesis by (simp add: scanline_def)
  next
    case (Raised e s')
    with assms m0 show ?thesis by (simp add: scanline_def)
  qed
qed

lemma scanline_prefix_returns:
  assumes "scanline (xs @ ys) t s = Done s2"
  shows "\<exists>s1. scanline xs t s = Done s1"
proof -
  from scanline_Done_loop[OF assms] obtain buf2 i2 where m0: "0 \<le> maxlen s"
    and l: "scanline_loop t (xs @ ys) (s, replicate (nat (maxlen s)) 0, 0) = Done (s2, buf2, i2)"
    by auto
  show ?thesis
  proof (cases "scanline_loop t xs (s, replicate (nat (maxlen s)) 0, 0)")
    case (Done st)
    then show ?thesis using m0 by (simp add: scanline_def)
  next
    case (Raised e s')
    with l show ?thesis by (simp add: scanline_loop_append)
  qed
qed

text \<open>
  The line \<open>q @ r @ [tc]\<close>: a part \<open>q\<close> that is empty or ends outside the
  alphabet and is scanned without an exception, a run \<open>r\<close> of alphabet characters
  below 128, and a terminator. Without the terminator the run leaves no trace.
  With it, the buffer holds the first \<open>maxlen\<close> characters of the run and the
  index is the length of the run capped at \<open>maxlen\<close>; they are recorded when the
  index reaches \<open>minlen\<close>.
\<close>

lemma scanline_flush:
  assumes q: "q = [] \<or> last q \<notin> set (chars s)"
    and r: "set r \<subseteq> set (chars s)" and ascii: "\<forall>c\<in>set r. c < 128"
    and tc: "tc \<notin> set (chars s)"
    and before: "scanline q t s = Done s1"
  shows "scanline (q @ r) t s = Done s1
         \<and> scanline (q @ r @ [tc]) t s =
               Done (if minlen s \<le> min (int (length r)) (maxlen s)
                     then add_diamond (take (nat (maxlen s)) r) t s1 else s1)"
proof -
  let ?buf0 = "replicate (nat (maxlen s)) (0::nat)"
  from scanline_Done_loop[OF before] obtain buf1 i1 where m0: "0 \<le> maxlen s"
    and l1: "scanline_loop t q (s, ?buf0, 0) = Done (s1, buf1, i1)" by auto
  from scanline_loop_frame[OF l1] m0
  have cfg: "chars s1 = chars s" "minlen s1 = minlen s" "maxlen s1 = maxlen s"
    and len1: "length buf1 = nat (maxlen s)"
    and i1': "q \<noteq> [] \<and> last q \<notin> set (chars s) \<longrightarrow> i1 = 0"
    by auto
  have i1: "i1 = 0"
  proof (cases "q = []")
    case True
    with l1 show ?thesis by simp
  next
    case False
    with q i1' show ?thesis by simp
  qed
  let ?j = "min (int (length r)) (maxlen s)"
  have "\<exists>buf'. scanline_loop t r (s1, buf1, 0)
            = Done (s1, buf', min (0 + int (length r)) (maxlen s1))
           \<and> length buf' = length buf1
           \<and> take (nat (min (0 + int (length r)) (maxlen s1))) buf'
               = take (nat 0) buf1 @ take (nat (maxlen s1 - 0)) r"
  proof (rule scanline_loop_run)
    show "\<forall>c\<in>set r. c \<in> set (chars s1) \<and> c \<le> 255"
    proof
      fix c assume c: "c \<in> set r"
      then have "c \<in> set (chars s)" using r by blast
      moreover have "c < 128" using c ascii by blast
      ultimately show "c \<in> set (chars s1) \<and> c \<le> 255" by (simp add: cfg)
    qed
  qed (use cfg m0 len1 in auto)
  then obtain buf2 where
    l2: "scanline_loop t r (s1, buf1, 0) = Done (s1, buf2, ?j)"
    and tk: "take (nat ?j) buf2 = take (nat (maxlen s)) r"
    by (auto simp: cfg)
  have "\<forall>b\<in>set (take (nat (maxlen s)) r). b < 128"
    using ascii by (meson in_set_takeD)
  then have dec: "utf8_decode (take (nat ?j) buf2) = Some (take (nat (maxlen s)) r)"
    unfolding tk by (rule utf8_decode_ascii)
  have jm: "?j \<le> maxlen s1" by (simp add: cfg)
  have l3: "scanline_loop t [tc] (s1, buf2, ?j)
            = Done (if minlen s \<le> ?j then add_diamond (take (nat (maxlen s)) r) t s1 else s1,
                    buf2, 0)"
    using tc dec jm by (simp add: cfg)
  have B: "scanline (q @ r) t s = Done s1"
    using m0 l1 l2 i1 by (simp add: scanline_def scanline_loop_append)
  have C: "scanline (q @ r @ [tc]) t s =
             Done (if minlen s \<le> ?j then add_diamond (take (nat (maxlen s)) r) t s1 else s1)"
    using m0 l1 l2 l3 i1 by (simp add: scanline_def scanline_loop_append)
  show ?thesis using B C by blast
qed

section \<open>Properties of the loops\<close>

text \<open>A stable relation holds between the state before a call and the state it leaves.\<close>

lemma stable_obind:
  assumes "stable R" and "R s (state_of a)" and "\<And>x. R x (state_of (f x))"
  shows "R s (state_of (obind a f))"
proof (cases a)
  case (Done x)
  have "R x (state_of (f x))" by (rule assms(3))
  with assms(1,2) Done show ?thesis unfolding stable_def by (metis obind.simps(1) state_of.simps(1))
next
  case (Raised e s')
  with assms(2) show ?thesis by simp
qed

lemma scanline_loop_stable:
  assumes "stable R"
  shows "R s (state_of (obind (scanline_loop t line (s, buf, i)) (\<lambda>st. Done (fst st))))"
proof (induction line arbitrary: s buf i)
  case Nil
  show ?case using assms by (simp add: stable_def)
next
  case (Cons c line)
  have r: "\<And>s. R s s" and tr: "\<And>a b c. R a b \<Longrightarrow> R b c \<Longrightarrow> R a c"
    and ad: "\<And>d t s. R s (add_diamond d t s)"
    using assms unfolding stable_def by blast+
  show ?case
  proof (cases "c \<in> set (chars s)")
    case True
    then show ?thesis using Cons.IH r by simp
  next
    case False
    show ?thesis
    proof (cases "minlen s \<le> i \<and> i \<le> maxlen s")
      case True
      show ?thesis
      proof (cases "utf8_decode (take (nat i) buf)")
        case None
        with True False show ?thesis using r by simp
      next
        case (Some d)
        have "R (add_diamond d t s) (state_of (obind (scanline_loop t line (add_diamond d t s, buf, 0)) (\<lambda>st. Done (fst st))))"
          by (rule Cons.IH)
        with ad[of s d t] have "R s (state_of (obind (scanline_loop t line (add_diamond d t s, buf, 0)) (\<lambda>st. Done (fst st))))"
          by (rule tr)
        with True False Some show ?thesis by simp
      qed
    next
      case F2: False
      have "scanline_loop t (c # line) (s, buf, i) = scanline_loop t line (s, buf, 0)"
        using False F2 by auto
      then show ?thesis using Cons.IH by simp
    qed
  qed
qed

lemma scanline_stable:
  assumes "stable R"
  shows "R s (state_of (scanline line t s))"
  using scanline_loop_stable[OF assms] assms by (simp add: scanline_def stable_def)

lemma scantext_loop_stable:
  assumes "stable R"
  shows "R s (state_of (scantext_loop count lines t s))"
proof (induction lines arbitrary: count s)
  case Nil
  show ?case using assms by (simp add: stable_def)
next
  case (Cons l lines)
  show ?case unfolding scantext_loop.simps
    by (rule stable_obind[OF assms]) (rule scanline_stable[OF assms], rule Cons.IH)
qed

lemma scantext_stable: "stable R \<Longrightarrow> R s (state_of (scantext text t s))"
  by (simp add: scantext_def scantext_loop_stable)

lemma scanstream_loop_stable:
  assumes "stable R"
  shows "R s (state_of (scanstream_loop count stream t s))"
proof (induction stream arbitrary: count s)
  case Nil
  show ?case using assms by (simp add: stable_def)
next
  case (Cons x stream)
  have r: "\<And>s. R s s" and tr: "\<And>a b c. R a b \<Longrightarrow> R b c \<Longrightarrow> R a c"
    and w: "\<And>s w. R s (s\<lparr>warnings := w\<rparr>)"
    using assms unfolding stable_def by blast+
  show ?case
  proof (cases x)
    case (Line l)
    show ?thesis
    proof (cases "l = []")
      case True
      with Line show ?thesis using r by simp
    next
      case False
      have "R s (state_of (obind (scanline l (t @ [TInt count]) s)
                 (scanstream_loop (count + 1) stream t)))"
        by (rule stable_obind[OF assms]) (rule scanline_stable[OF assms], rule Cons.IH)
      with Line False show ?thesis by simp
    qed
  next
    case DecodeFail
    have "R (s\<lparr>warnings := warnings s @ [(count, t)]\<rparr>)
            (state_of (scanstream_loop (count + 1) stream t (s\<lparr>warnings := warnings s @ [(count, t)]\<rparr>)))"
      by (rule Cons.IH)
    with w[of s] have "R s (state_of (scanstream_loop (count + 1) stream t (s\<lparr>warnings := warnings s @ [(count, t)]\<rparr>)))"
      by (rule tr)
    with DecodeFail show ?thesis by simp
  qed
qed

lemma scanstream_stable: "stable R \<Longrightarrow> R s (state_of (scanstream stream t s))"
  by (simp add: scanstream_def scanstream_loop_stable)

lemma scan_stable: "stable R \<Longrightarrow> R s (state_of (scan src targ s))"
  by (cases src) (simp_all add: scan_def Let_def scantext_stable scanstream_stable stable_def)

lemma scanfile_stable:
  assumes "stable_fs R"
  shows "R s (state_of (scanfile sys file inc exc relp t s))"
proof -
  have st: "stable R" and r: "\<And>s. R s s" and tr: "\<And>a b c. R a b \<Longrightarrow> R b c \<Longrightarrow> R a c"
    and op: "\<And>s p. R s (s\<lparr>opened := p\<rparr>)"
    using assms unfolding stable_fs_def stable_def by blast+
  show ?thesis
  proof (cases "check_extension sys file inc exc")
    case False
    then show ?thesis using r by (simp add: scanfile_def)
  next
    case True
    show ?thesis
    proof (cases "fs_open sys file")
      case None
      with True show ?thesis using op by (simp add: scanfile_def Let_def)
    next
      case (Some stream)
      let ?s1 = "s\<lparr>opened := opened s @ [file]\<rparr>"
      let ?t = "t @ [TStr (case relp of None \<Rightarrow> file | Some base \<Rightarrow> os_relpath sys file base)]"
      have "R ?s1 (state_of (scanstream stream ?t ?s1))" by (rule scanstream_stable[OF st])
      with op[of s] have "R s (state_of (scanstream stream ?t ?s1))" by (rule tr)
      with True Some show ?thesis by (simp add: scanfile_def Let_def)
    qed
  qed
qed

lemma stable_fs_obind:
  assumes "stable_fs R" and "R s (state_of a)" and "\<And>x. R x (state_of (f x))"
  shows "R s (state_of (obind a f))"
  using assms stable_obind unfolding stable_fs_def by blast

lemma scan_files_stable:
  assumes "stable_fs R"
  shows "R s (state_of (scan_files sys root files inc exc directory t s))"
proof (induction files arbitrary: s)
  case Nil
  show ?case using assms by (simp add: stable_fs_def stable_def)
next
  case (Cons f files)
  show ?case unfolding scan_files.simps
    by (rule stable_fs_obind[OF assms]) (rule scanfile_stable[OF assms], rule Cons.IH)
qed

lemma scan_walk_stable:
  assumes "stable_fs R"
  shows "R s (state_of (scan_walk sys walk inc exc directory t s))"
proof (induction walk arbitrary: s)
  case Nil
  show ?case using assms by (simp add: stable_fs_def stable_def)
next
  case (Cons w walk)
  obtain root dirs files where w: "w = (root, dirs, files)" by (cases w)
  show ?case unfolding w scan_walk.simps
    by (rule stable_fs_obind[OF assms]) (rule scan_files_stable[OF assms], rule Cons.IH)
qed

lemma scan_listing_stable:
  assumes "stable_fs R"
  shows "R s (state_of (scan_listing sys files inc exc directory t s))"
proof (induction files arbitrary: s)
  case Nil
  show ?case using assms by (simp add: stable_fs_def stable_def)
next
  case (Cons f files)
  show ?case
  proof (cases "os_isfile sys (os_join sys directory f)")
    case True
    have "R s (state_of (obind (scanfile sys (os_join sys directory f) inc exc (Some directory) t s)
                 (scan_listing sys files inc exc directory t)))"
      by (rule stable_fs_obind[OF assms]) (rule scanfile_stable[OF assms], rule Cons.IH)
    with True show ?thesis by (simp add: Let_def)
  next
    case False
    then show ?thesis using Cons.IH by (simp add: Let_def)
  qed
qed

lemma scandir_stable:
  assumes "stable_fs R"
  shows "R s (state_of (scandir sys directory deep t inc exc s))"
proof -
  have r: "\<And>s. R s s" using assms unfolding stable_fs_def stable_def by blast
  show ?thesis
    by (cases "os_listdir sys directory")
       (simp_all add: scandir_def Let_def scan_walk_stable[OF assms]
          scan_listing_stable[OF assms] r)
qed

lemma exec_stable:
  assumes "stable_fs R"
  shows "R s (state_of (exec sys op s))"
proof -
  have st: "stable R" and ad: "\<And>d t s. R s (add_diamond d t s)"
    using assms unfolding stable_fs_def stable_def by blast+
  show ?thesis
    by (cases op)
       (simp_all add: scan_stable[OF st] scanline_stable[OF st] scantext_stable[OF st]
          scanstream_stable[OF st] scanfile_stable[OF assms] scandir_stable[OF assms] ad)
qed

lemma run_stable:
  assumes "stable_fs R"
  shows "R s (run sys ops s)"
proof (induction ops arbitrary: s)
  case Nil
  show ?case using assms by (simp add: stable_fs_def stable_def)
next
  case (Cons op ops)
  have tr: "\<And>a b c. R a b \<Longrightarrow> R b c \<Longrightarrow> R a c"
    using assms unfolding stable_fs_def stable_def by blast
  have "R s (state_of (exec sys op s))" by (rule exec_stable[OF assms])
  moreover have "R (state_of (exec sys op s)) (run sys ops (state_of (exec sys op s)))"
    by (rule Cons.IH)
  ultimately show ?case unfolding run.simps by (rule tr)
qed

subsection \<open>The index and the history of matches\<close>

lemma tags_of_append: "tags_of d (ms @ ms') = tags_of d ms @ tags_of d ms'"
  by (simp add: tags_of_def)

lemma add_diamond_index:
  "index (add_diamond d t s) = (index s)(d \<mapsto> (case index s d of None \<Rightarrow> [] | Some ts \<Rightarrow> ts) @ [t])"
  by (simp add: add_diamond_def Let_def)

lemma consistent_add_diamond:
  assumes "consistent s"
  shows "consistent (add_diamond d t s)"
  unfolding consistent_def
proof
  fix d'
  have i: "index s d' = index_of (recorded s) d'" for d'
    using assms by (simp add: consistent_def)
  show "index (add_diamond d t s) d' = index_of (recorded (add_diamond d t s)) d'"
  proof (cases "d' = d")
    case True
    have "(case index s d of None \<Rightarrow> [] | Some ts \<Rightarrow> ts) = tags_of d (recorded s)"
      using i[of d] by (simp add: index_of_def)
    then show ?thesis using True
      by (simp add: add_diamond_index index_of_def tags_of_append) (simp add: tags_of_def)
  next
    case False
    then show ?thesis using i[of d']
      by (simp add: add_diamond_index index_of_def tags_of_append) (simp add: tags_of_def)
  qed
qed

lemma extends_stable_fs: "stable_fs extends"
  unfolding stable_fs_def stable_def extends_def
  by (auto simp: consistent_add_diamond) (simp_all add: consistent_def)

lemma consistent_fresh: "consistent (fresh cs lo hi notify)"
  by (simp add: consistent_def fresh_def index_of_def tags_of_def)

lemma run_extends: "extends s (run sys ops s)"
  by (rule run_stable[OF extends_stable_fs])

lemma exec_extends: "extends s (state_of (exec sys op s))"
  by (rule exec_stable[OF extends_stable_fs])

lemma reachable_consistent: "consistent (run sys ops (fresh cs lo hi notify))"
  using run_extends[of "fresh cs lo hi notify" sys ops] consistent_fresh
  by (simp add: extends_def)

lemma index_of_dom: "(index_of ms d \<noteq> None) = (d \<in> fst ` set ms)"
  by (induction ms) (auto simp: index_of_def tags_of_def)

subsection \<open>Configurations that never match\<close>

lemma scanline_loop_silent:
  assumes "maxlen s < minlen s \<or> (chars s = [] \<and> 0 < minlen s)"
    and "\<forall>c\<in>set (chars s). c \<le> 255"
    and "0 \<le> i" and "i \<le> maxlen s" and "chars s = [] \<longrightarrow> i = 0"
  shows "\<exists>buf' i'. scanline_loop t line (s, buf, i) = Done (s, buf', i')"
  using assms(3-5)
proof (induction line arbitrary: buf i)
  case Nil
  show ?case by simp
next
  case (Cons c line)
  show ?case
  proof (cases "c \<in> set (chars s)")
    case True
    then have ne: "chars s \<noteq> []" by auto
    have c: "\<not> c > 255" using True assms(2) by auto
    show ?thesis
    proof (cases "i \<ge> maxlen s")
      case T2: True
      from Cons.IH[of i buf] Cons.prems True T2 show ?thesis by simp
    next
      case False
      from Cons.IH[of "i + 1" "buf[nat i := c]"] Cons.prems True False c ne
      show ?thesis by simp
    qed
  next
    case False
    have "\<not> (minlen s \<le> i \<and> i \<le> maxlen s)"
      using assms(1) Cons.prems by auto
    then have "scanline_loop t (c # line) (s, buf, i) = scanline_loop t line (s, buf, 0)"
      using False by auto
    moreover have "0 \<le> maxlen s" using Cons.prems by simp
    ultimately show ?thesis using Cons.IH[of 0 buf] by simp
  qed
qed

subsection \<open>Streams and texts\<close>

lemma opened_stable: "stable (\<lambda>s s'. opened s' = opened s)"
  by (simp add: stable_def)

lemma scanstream_loop_append:
  assumes "\<forall>x\<in>set pre. x \<noteq> Line []"
  shows "scanstream_loop c (pre @ rest) t s
           = obind (scanstream_loop c pre t s) (scanstream_loop (c + int (length pre)) rest t)"
  using assms
proof (induction pre arbitrary: c s)
  case Nil
  show ?case by simp
next
  case (Cons x pre)
  have e: "c + int (length (x # pre)) = c + 1 + int (length pre)" by simp
  show ?case
  proof (cases x)
    case (Line l)
    with Cons.prems have "l \<noteq> []" by auto
    then show ?thesis using Line Cons.IH[of "c + 1"] Cons.prems unfolding e
      by (cases "scanline l (t @ [TInt c]) s") simp_all
  next
    case DecodeFail
    then show ?thesis using Cons.IH[of "c + 1"] Cons.prems unfolding e by simp
  qed
qed

lemma scantext_loop_call_seq:
  "scantext_loop c ls t
     = call_seq (map (\<lambda>(k, line). (line @ [NL], t @ [TInt k])) (enumerate_from c ls))"
proof (induction ls arbitrary: c)
  case Nil
  show ?case by (rule ext) simp
next
  case (Cons l ls)
  show ?case by (rule ext) (simp add: Cons.IH)
qed

lemma split_acc_nonempty: "split_acc cur xs \<noteq> []"
  by (induction xs arbitrary: cur) auto

lemma join_nl_Cons: "ls \<noteq> [] \<Longrightarrow> join_nl (l # ls) = l @ NL # join_nl ls"
  by (cases ls) simp_all

lemma join_split_acc: "join_nl (split_acc cur xs) = cur @ xs"
  by (induction xs arbitrary: cur) (simp_all add: join_nl_Cons split_acc_nonempty)

lemma split_acc_no_newline:
  "NL \<notin> set cur \<Longrightarrow> l \<in> set (split_acc cur xs) \<Longrightarrow> NL \<notin> set l"
proof (induction xs arbitrary: cur)
  case Nil
  then show ?case by simp
next
  case (Cons c xs)
  show ?case
  proof (cases "c = NL")
    case True
    with Cons.prems have "l = cur \<or> l \<in> set (split_acc [] xs)" by simp
    then show ?thesis using Cons.prems(1) Cons.IH[of "[]"] by auto
  next
    case False
    with Cons.prems have "l \<in> set (split_acc (cur @ [c]) xs)" by simp
    moreover have "NL \<notin> set (cur @ [c])" using False Cons.prems(1) by simp
    ultimately show ?thesis using Cons.IH[of "cur @ [c]"] by blast
  qed
qed

lemma length_enumerate_from: "length (enumerate_from c xs) = length xs"
  by (induction xs arbitrary: c) auto

lemma nth_enumerate_from:
  "k < length xs \<Longrightarrow> enumerate_from c xs ! k = (c + int k, xs ! k)"
proof (induction xs arbitrary: c k)
  case Nil
  then show ?case by simp
next
  case (Cons x xs)
  show ?case
  proof (cases k)
    case 0
    then show ?thesis by simp
  next
    case (Suc j)
    with Cons.prems have "j < length xs" by simp
    from Cons.IH[OF this, of "c + 1"] Suc show ?thesis by simp
  qed
qed

lemma scantext_loop_Nil: "scantext_loop c [] t = Done"
  by (rule ext) simp

lemma scantext_loop_append:
  "scantext_loop c (xs @ ys) t s
     = obind (scantext_loop c xs t s) (scantext_loop (c + int (length xs)) ys t)"
proof (induction xs arbitrary: c s)
  case Nil
  show ?case by simp
next
  case (Cons x xs)
  have e: "c + int (length (x # xs)) = c + 1 + int (length xs)" by simp
  show ?case unfolding e using Cons.IH[of "c + 1"]
    by (cases "scanline (x @ [NL]) (t @ [TInt c]) s") simp_all
qed

lemma scantext_loop_total:
  assumes "\<forall>c\<in>set (chars s). c < 128" and "0 \<le> maxlen s"
  shows "\<exists>s'. scantext_loop c ls t s = Done s' \<and> chars s' = chars s
           \<and> minlen s' = minlen s \<and> maxlen s' = maxlen s"
  using assms
proof (induction ls arbitrary: c s)
  case Nil
  show ?case by simp
next
  case (Cons l ls)
  from scanline_total[OF Cons.prems, of "l @ [NL]" "t @ [TInt c]"]
  obtain s1 where s1: "scanline (l @ [NL]) (t @ [TInt c]) s = Done s1"
    "chars s1 = chars s" "minlen s1 = minlen s" "maxlen s1 = maxlen s" by auto
  from Cons.IH[of s1 "c + 1"] Cons.prems s1 show ?case by auto
qed

lemma split_acc_append_run:
  "NL \<notin> set r \<Longrightarrow>
     split_acc cur (xs @ r) = butlast (split_acc cur xs) @ [last (split_acc cur xs) @ r]"
proof (induction xs arbitrary: cur)
  case Nil
  have "split_acc cur r = [cur @ r]" using Nil
    by (induction r arbitrary: cur) auto
  then show ?case by simp
next
  case (Cons c xs)
  then show ?case by (simp add: split_acc_nonempty)
qed

lemma last_split_acc:
  "last (split_acc cur xs) = [] \<or> last (last (split_acc cur xs)) = last (cur @ xs)"
proof (induction xs arbitrary: cur)
  case Nil
  show ?case by simp
next
  case (Cons c xs)
  show ?case
  proof (cases "c = NL")
    case True
    show ?thesis
    proof (cases "xs = []")
      case T: True
      with True show ?thesis by simp
    next
      case False
      with True Cons.IH[of "[]"] show ?thesis by (simp add: split_acc_nonempty)
    qed
  next
    case False
    with Cons.IH[of "cur @ [c]"] show ?thesis by simp
  qed
qed

lemma length_split_acc_append_run:
  "NL \<notin> set r \<Longrightarrow> length (split_acc cur (xs @ r)) = length (split_acc cur xs)"
  by (simp add: split_acc_append_run split_acc_nonempty)

subsection \<open>Streams in general\<close>

text \<open>On a stream that ends, the general loop is the loop over the list of outcomes.\<close>

lemma scanstream_any_list:
  "scanstream_any list_readline count stream t s = Some (scanstream_loop count stream t s)"
proof (induction stream arbitrary: count s)
  case Nil
  show ?case by (subst scanstream_any.simps) simp
next
  case (Cons x stream)
  show ?case
  proof (cases x)
    case (Line l)
    show ?thesis
      by (subst scanstream_any.simps)
         (simp add: Line Cons.IH split: outcome.split)
  next
    case DecodeFail
    show ?thesis
      by (subst scanstream_any.simps) (simp add: DecodeFail Cons.IH)
  qed
qed

text \<open>On a stream whose every read fails the loop never returns.\<close>

lemma scanstream_any_always_fails: "scanstream_any always_fails count u t s = None"
proof -
  have "rl = always_fails \<longrightarrow> False"
    if "scanstream_any rl count u t s = Some y" for rl y
    by (rule scanstream_any.raw_induct
              [where P = "\<lambda>rl c st t s y. rl = always_fails \<longrightarrow> False", OF _ that])
       (fastforce simp: always_fails_def)
  then show ?thesis by (cases "scanstream_any always_fails count u t s") auto
qed

subsection \<open>Scripts\<close>





lemma state_of_finish [simp]: "state_of (finish r s) = s"
  by (cases r) simp_all






















subsection \<open>Calls of the line scanner\<close>

lemma call_seq_Done_scan_each:
  "call_seq calls s = Done s' \<Longrightarrow> s' = scan_each calls s"
proof (induction calls arbitrary: s)
  case Nil
  then show ?case by simp
next
  case (Cons c calls)
  obtain line t where c: "c = (line, t)" by (cases c)
  show ?case
  proof (cases "scanline line t s")
    case (Done s1)
    with Cons.prems c have "call_seq calls s1 = Done s'" by simp
    from Cons.IH[OF this] show ?thesis by (simp add: c Done)
  next
    case (Raised e s1)
    with Cons.prems c show ?thesis by simp
  qed
qed

lemma length_split_acc: "length (split_acc cur xs) = Suc (count_list xs NL)"
  by (induction xs arbitrary: cur) simp_all

section \<open>Runs and their terminator\<close>

text \<open>
  A line that is a run of \<open>L\<close> alphabet characters and a terminator outside the
  alphabet. If \<open>minlen \<le> L \<le> maxlen\<close> and the characters of the run are code
  points below 128, the scan records exactly one diamond, the whole run, under the
  tag of the call. If \<open>L < minlen\<close> the scan records nothing.
\<close>

lemma scanline_run_within_bounds:
  assumes "set r \<subseteq> set (chars s)" and "tc \<notin> set (chars s)"
  shows "((\<forall>c\<in>set r. c < 128) \<and> minlen s \<le> int (length r)
            \<and> int (length r) \<le> maxlen s
          \<longrightarrow> scanline (r @ [tc]) t s = Done (add_diamond r t s))
         \<and> (int (length r) < minlen s
          \<longrightarrow> scanline (r @ [tc]) t s = Done s
              \<or> scanline (r @ [tc]) t s = Raised ValueError s)"
proof -
  have 1: "scanline (r @ [tc]) t s = Done (add_diamond r t s)"
    if ascii: "\<forall>c\<in>set r. c < 128"
      and lo: "minlen s \<le> int (length r)" and hi: "int (length r) \<le> maxlen s"
  proof -
    have m0: "0 \<le> maxlen s" using hi by simp
    have before: "scanline [] t s = Done s" using m0 by (simp add: scanline_def)
    from scanline_flush[where q = "[]", OF _ assms(1) ascii assms(2) before]
    have b: "scanline ([] @ r @ [tc]) t s =
                 Done (if minlen s \<le> min (int (length r)) (maxlen s)
                       then add_diamond (take (nat (maxlen s)) r) t s else s)"
      by simp
    have tk: "take (nat (maxlen s)) r = r" using hi by simp
    show ?thesis using b lo hi unfolding tk by (simp add: min_def)
  qed
  have 2: "scanline (r @ [tc]) t s = Done s \<or> scanline (r @ [tc]) t s = Raised ValueError s"
    if short: "int (length r) < minlen s"
  proof (cases "maxlen s < 0")
    case True
    then show ?thesis by (simp add: scanline_def)
  next
    case False
    let ?buf0 = "replicate (nat (maxlen s)) (0::nat)"
    have "(\<exists>buf'. scanline_loop t r (s, ?buf0, 0)
                   = Done (s, buf', min (0 + int (length r)) (maxlen s)))
         \<or> scanline_loop t r (s, ?buf0, 0) = Raised ValueError s"
      by (rule scanline_loop_run_any) (use assms False in auto)
    then show ?thesis
    proof
      assume "\<exists>buf'. scanline_loop t r (s, ?buf0, 0)
                   = Done (s, buf', min (0 + int (length r)) (maxlen s))"
      then obtain buf' where
        l: "scanline_loop t r (s, ?buf0, 0) = Done (s, buf', min (int (length r)) (maxlen s))"
        by auto
      have "\<not> (minlen s \<le> min (int (length r)) (maxlen s))" using short by simp
      then have "scanline_loop t [tc] (s, buf', min (int (length r)) (maxlen s))
                 = Done (s, buf', 0)"
        using assms(2) by auto
      then have "scanline (r @ [tc]) t s = Done s"
        using False l by (simp add: scanline_def scanline_loop_append)
      then show ?thesis ..
    next
      assume "scanline_loop t r (s, ?buf0, 0) = Raised ValueError s"
      then have "scanline (r @ [tc]) t s = Raised ValueError s"
        using False by (simp add: scanline_def scanline_loop_append)
      then show ?thesis ..
    qed
  qed
  show ?thesis using 1 2 by blast
qed

text \<open>
  The hexadecimal alphabet with bounds 4 and 6: runs of 6 and of 4 digits are
  recorded, a run of 3 is not.
\<close>

lemma scanline_run_within_bounds_example:
  "scanline (str ''c0ffee'' @ [NL]) [TInt 1] (fresh hex 4 6 False)
     = Done (add_diamond (str ''c0ffee'') [TInt 1] (fresh hex 4 6 False))
   \<and> scanline (str ''c0ff'' @ [NL]) [TInt 1] (fresh hex 4 6 False)
     = Done (add_diamond (str ''c0ff'') [TInt 1] (fresh hex 4 6 False))
   \<and> scanline (str ''c0f'' @ [NL]) [TInt 1] (fresh hex 4 6 False)
     = Done (fresh hex 4 6 False)"
proof -
  let ?s = "fresh hex 4 6 False"
  have a: "set (str ''c0ffee'') \<subseteq> set (chars ?s)" "set (str ''c0ff'') \<subseteq> set (chars ?s)"
    "set (str ''c0f'') \<subseteq> set (chars ?s)" "NL \<notin> set (chars ?s)"
    by (simp_all add: fresh_def hex_def str_def NL_def)
  have h: "\<forall>c\<in>set (str ''c0ffee''). c < 128" "\<forall>c\<in>set (str ''c0ff''). c < 128"
    "minlen ?s = 4" "maxlen ?s = 6"
    by (simp_all add: fresh_def str_def)
  have l: "int (length (str ''c0ffee'')) = 6" "int (length (str ''c0ff'')) = 4"
    "int (length (str ''c0f'')) = 3"
    by (simp_all add: str_def)
  have "scanline (str ''c0ffee'' @ [NL]) [TInt 1] ?s
          = Done (add_diamond (str ''c0ffee'') [TInt 1] ?s)"
    using scanline_run_within_bounds[OF a(1) a(4), of "[TInt 1]"] h l by simp
  moreover have "scanline (str ''c0ff'' @ [NL]) [TInt 1] ?s
          = Done (add_diamond (str ''c0ff'') [TInt 1] ?s)"
    using scanline_run_within_bounds[OF a(2) a(4), of "[TInt 1]"] h l by simp
  moreover have "scanline (str ''c0f'' @ [NL]) [TInt 1] ?s = Done ?s
          \<or> scanline (str ''c0f'' @ [NL]) [TInt 1] ?s = Raised ValueError ?s"
    using scanline_run_within_bounds[OF a(3) a(4), of "[TInt 1]"] h l by simp
  moreover have "scanline (str ''c0f'' @ [NL]) [TInt 1] ?s \<noteq> Raised ValueError ?s"
    by (simp add: eval_all)
  ultimately show ?thesis by blast
qed

text \<open>
  C4. A line that is a run of alphabet characters of a length within the bounds and
  a terminator should record the run. The code does so for code points below 128,
  as shown above. It stores \<open>ord(char)\<close> in a byte buffer and reads the buffer
  back as UTF-8, so for the alphabet of the one character U+00E9, the bounds 1
  and 1 and the line of that character and a newline, the byte 233 alone is not
  UTF-8: the scan raises \<open>UnicodeDecodeError\<close> and records nothing.
\<close>

theorem scanline_non_ascii_run_raises:
  "scanline [233, NL] [] (fresh [233] 1 1 False)
     = Raised UnicodeDecodeError (fresh [233] 1 1 False)"
  by (simp add: eval_scanline)

text \<open>
  C1 (as amended). A run of more than \<open>maxlen\<close> alphabet characters (code points
  below 128) and a terminator: the index stops at \<open>maxlen\<close>, so the terminator
  finds it inside the bounds whenever \<open>minlen \<le> maxlen\<close>. The scan then records
  exactly one diamond, the first \<open>maxlen\<close> characters of the run; with
  \<open>minlen > maxlen\<close> it records nothing.
\<close>

theorem scanline_run_too_long:
  assumes "set r \<subseteq> set (chars s)" and "\<forall>c\<in>set r. c < 128" and "tc \<notin> set (chars s)"
    and "0 \<le> maxlen s" and "maxlen s < int (length r)"
  shows "scanline (r @ [tc]) t s
           = Done (if minlen s \<le> maxlen s
                   then add_diamond (take (nat (maxlen s)) r) t s else s)"
proof -
  have before: "scanline [] t s = Done s" using assms(4) by (simp add: scanline_def)
  from scanline_flush[where q = "[]", OF _ assms(1) assms(2) assms(3) before]
  have "scanline ([] @ r @ [tc]) t s =
               Done (if minlen s \<le> min (int (length r)) (maxlen s)
                     then add_diamond (take (nat (maxlen s)) r) t s else s)"
    by simp
  then show ?thesis using assms(5) by (simp add: min_def)
qed

text \<open>
  The hexadecimal alphabet with bounds 4 and 6, and a run of eight digits: the
  first six are recorded.
\<close>

theorem scanline_run_too_long_witness:
  "scanline (str ''deadbeef'' @ [NL]) [TInt 7] (fresh hex 4 6 False)
     = Done (add_diamond (str ''deadbe'') [TInt 7] (fresh hex 4 6 False))"
proof -
  let ?s = "fresh hex 4 6 False"
  have "scanline (str ''deadbeef'' @ [NL]) [TInt 7] ?s
        = Done (if minlen ?s \<le> maxlen ?s
                then add_diamond (take (nat (maxlen ?s)) (str ''deadbeef'')) [TInt 7] ?s
                else ?s)"
    by (rule scanline_run_too_long) (simp_all add: fresh_def hex_def str_def NL_def)
  then show ?thesis by (simp add: fresh_def str_def)
qed

text \<open>
  C1 as stated fails. The alphabet is \<open>a\<close>, the bounds are 1 and 2, the line is
  \<open>aaa\<close> and a newline: a run of 3, longer than \<open>maxlen\<close>. The scan records the
  diamond \<open>aa\<close>.
\<close>

theorem scanline_run_too_long_counterexample:
  "scanline (str ''aaa'' @ [NL]) [] (fresh (str ''a'') 1 2 False)
     = Done ((fresh (str ''a'') 1 2 False)
              \<lparr>index := [str ''aa'' \<mapsto> [[]]], recorded := [(str ''aa'', [])]\<rparr>)"
  by (simp add: eval_all)

text \<open>
  A string that ends with a run \<open>r\<close> of alphabet characters below 128, of a
  length within the bounds, after a part \<open>q\<close> that is empty or ends outside the
  alphabet. When the scan of \<open>q\<close> returns, scanning the string as it is gives
  what scanning \<open>q\<close> alone gives: the run leaves no trace. And scanning the
  string with a terminator outside the alphabet appended records the run on top of
  that. The scan of \<open>q\<close> returns whenever the whole alphabet is below 128.
\<close>

lemma scanline_unterminated_run_dropped:
  assumes "q = [] \<or> last q \<notin> set (chars s)"
    and "r \<noteq> []" and "set r \<subseteq> set (chars s)" and "\<forall>c\<in>set r. c < 128"
    and "tc \<notin> set (chars s)"
    and "minlen s \<le> int (length r)" and "int (length r) \<le> maxlen s"
  shows "(\<forall>s1. scanline q t s = Done s1 \<longrightarrow>
            scanline (q @ r) t s = Done s1
            \<and> scanline (q @ r @ [tc]) t s = Done (add_diamond r t s1))
         \<and> ((\<forall>c\<in>set (chars s). c < 128) \<longrightarrow> returns (scanline q t s))"
proof -
  have m0: "0 \<le> maxlen s" using assms(7) by simp
  have tk: "take (nat (maxlen s)) r = r" using assms(7) by simp
  have 1: "scanline (q @ r) t s = Done s1
            \<and> scanline (q @ r @ [tc]) t s = Done (add_diamond r t s1)"
    if before: "scanline q t s = Done s1" for s1
    using scanline_flush[OF assms(1) assms(3) assms(4) assms(5) before] assms(6,7)
    unfolding tk by (simp add: min_def)
  have 2: "returns (scanline q t s)" if "\<forall>c\<in>set (chars s). c < 128"
    using scanline_total[OF that m0, of q t] by auto
  show ?thesis using 1 2 by blast
qed

text \<open>
  The hexadecimal alphabet with bounds 4 and 6 and the string \<open>x=c0ffee\<close>:
  nothing is recorded without the newline, \<open>c0ffee\<close> with it.
\<close>

lemma scanline_unterminated_run_dropped_example:
  "scanline (str ''x=c0ffee'') [TInt 1] (fresh hex 4 6 False)
     = Done (fresh hex 4 6 False)
   \<and> scanline (str ''x=c0ffee'' @ [NL]) [TInt 1] (fresh hex 4 6 False)
     = Done (add_diamond (str ''c0ffee'') [TInt 1] (fresh hex 4 6 False))
   \<and> returns (scanline (str ''x='') [TInt 1] (fresh hex 4 6 False))"
proof -
  let ?s = "fresh hex 4 6 False"
  have "(\<forall>s1. scanline (str ''x='') [TInt 1] ?s = Done s1 \<longrightarrow>
            scanline (str ''x='' @ str ''c0ffee'') [TInt 1] ?s = Done s1
            \<and> scanline (str ''x='' @ str ''c0ffee'' @ [NL]) [TInt 1] ?s
                = Done (add_diamond (str ''c0ffee'') [TInt 1] s1))
         \<and> ((\<forall>c\<in>set (chars ?s). c < 128) \<longrightarrow> returns (scanline (str ''x='') [TInt 1] ?s))"
    by (rule scanline_unterminated_run_dropped)
       (simp_all add: fresh_def hex_def str_def NL_def)
  moreover have "scanline (str ''x='') [TInt 1] ?s = Done ?s"
    by (simp add: eval_all)
  moreover have "\<forall>c\<in>set (chars ?s). c < 128"
    by (simp add: fresh_def hex_def str_def)
  ultimately show ?thesis by (auto simp: str_def)
qed

text \<open>
  C5. A string that ends with a run of a length within the bounds records nothing
  for that run when it is scanned as it is, and should record the run when a
  terminator is appended. The code does both for code points below 128, as shown
  above. For the alphabet of the one character U+00E9 with the bounds 1 and 1 and
  the string \<open>x\<close> and that character, the scan of the string returns and records
  nothing, and the scan with a newline appended raises \<open>UnicodeDecodeError\<close>
  at the newline and records nothing either: the byte buffer is read back as UTF-8.
\<close>

theorem scanline_non_ascii_trailing_run_raises:
  "scanline [120, 233] [TInt 1] (fresh [233] 1 1 False) = Done (fresh [233] 1 1 False)
   \<and> scanline [120, 233, NL] [TInt 1] (fresh [233] 1 1 False)
       = Raised UnicodeDecodeError (fresh [233] 1 1 False)"
  by (simp add: eval_scanline)

section \<open>Construction\<close>

text \<open>
  C2 (as amended). The constructor never refuses: for every configuration it returns
  an object that holds the alphabet and the bounds as given, with an empty index.
  With \<open>minlen > maxlen\<close>, or with an empty alphabet and \<open>minlen > 0\<close>, such an
  object (\<open>maxlen \<ge> 0\<close>, alphabet code points at most 255) scans every line
  without an error and records nothing.
\<close>

theorem init_accepts_every_configuration:
  "init cs lo hi notify = Done (fresh cs lo hi notify)
   \<and> chars (fresh cs lo hi notify) = cs \<and> minlen (fresh cs lo hi notify) = lo
   \<and> maxlen (fresh cs lo hi notify) = hi \<and> index (fresh cs lo hi notify) = Map.empty
   \<and> ((hi < lo \<or> (cs = [] \<and> 0 < lo)) \<and> 0 \<le> hi \<and> (\<forall>c\<in>set cs. c \<le> 255)
        \<longrightarrow> scanline line t (fresh cs lo hi notify) = Done (fresh cs lo hi notify))"
proof -
  let ?s = "fresh cs lo hi notify"
  have cfg: "chars ?s = cs" "minlen ?s = lo" "maxlen ?s = hi" "index ?s = Map.empty"
    by (simp_all add: fresh_def)
  have "scanline line t ?s = Done ?s"
    if h: "(hi < lo \<or> (cs = [] \<and> 0 < lo)) \<and> 0 \<le> hi \<and> (\<forall>c\<in>set cs. c \<le> 255)"
  proof -
    have "\<exists>buf' i'. scanline_loop t line (?s, replicate (nat (maxlen ?s)) 0, 0) = Done (?s, buf', i')"
      by (rule scanline_loop_silent) (use h in \<open>auto simp: cfg\<close>)
    then show ?thesis using h by (auto simp: scanline_def cfg)
  qed
  then show ?thesis using cfg by (simp add: init_def)
qed

text \<open>The hexadecimal alphabet with the bounds 6 and 4 in the wrong order.\<close>

theorem init_accepts_every_configuration_witness:
  "init hex 6 4 False = Done (fresh hex 6 4 False)
   \<and> scanline (str ''id=c0ffee'' @ [NL]) [TInt 1] (fresh hex 6 4 False)
       = Done (fresh hex 6 4 False)"
  using init_accepts_every_configuration
          [where cs = hex and lo = 6 and hi = 4 and notify = False
             and line = "str ''id=c0ffee'' @ [NL]" and t = "[TInt 1]"]
  by (simp add: hex_def str_def)

text \<open>
  C2 as stated fails: the constructor returns for the bounds 6 and 4, and for
  the empty alphabet.
\<close>

theorem init_accepts_every_configuration_counterexample:
  "returns (init hex 6 4 False) \<and> returns (init [] 4 6 False)"
  by (simp add: init_def)

section \<open>Scanning a string\<close>

text \<open>
  C9 (as amended). \<open>scantext\<close> splits the text at the newlines: the pieces
  joined by newlines are the text, no piece holds a newline, and there is one
  piece more than there are newlines. It calls the line scanner on the pieces in
  order, each with the newline put back at the end and the tag extended by the
  number of the piece, counted from 1, until a call raises: the exception ends the
  scan. When \<open>scantext\<close> returns, every piece has been scanned once. It returns
  whenever the alphabet is below 128 and \<open>maxlen\<close> is not negative.
\<close>

theorem scantext_scans_each_line_once:
  "scantext inp t s
     = call_seq (map (\<lambda>(k, line). (line @ [NL], t @ [TInt k]))
                     (enumerate_from 1 (split_nl inp))) s
   \<and> (returns (scantext inp t s) \<longrightarrow>
        scantext inp t s
          = Done (scan_each (map (\<lambda>(k, line). (line @ [NL], t @ [TInt k]))
                                 (enumerate_from 1 (split_nl inp))) s))
   \<and> ((\<forall>c\<in>set (chars s). c < 128) \<and> 0 \<le> maxlen s \<longrightarrow> returns (scantext inp t s))
   \<and> length (enumerate_from 1 (split_nl inp)) = length (split_nl inp)
   \<and> (\<forall>k<length (split_nl inp).
         enumerate_from 1 (split_nl inp) ! k = (int k + 1, split_nl inp ! k))
   \<and> join_nl (split_nl inp) = inp
   \<and> (\<forall>l\<in>set (split_nl inp). NL \<notin> set l)
   \<and> length (split_nl inp) = Suc (count_list inp NL)"
proof -
  let ?calls = "map (\<lambda>(k, line). (line @ [NL], t @ [TInt k])) (enumerate_from 1 (split_nl inp))"
  have 1: "scantext inp t s = call_seq ?calls s"
    by (simp add: scantext_def scantext_loop_call_seq)
  have 2: "scantext inp t s = Done (scan_each ?calls s)" if "returns (scantext inp t s)"
  proof (cases "scantext inp t s")
    case (Done s')
    then have "call_seq ?calls s = Done s'" using 1 by simp
    from call_seq_Done_scan_each[OF this] Done show ?thesis by simp
  next
    case (Raised e s')
    with that show ?thesis by simp
  qed
  have 3: "returns (scantext inp t s)" if "(\<forall>c\<in>set (chars s). c < 128) \<and> 0 \<le> maxlen s"
    using scantext_loop_total[of s 1 "split_nl inp" t] that by (auto simp: scantext_def)
  have 4: "\<forall>l\<in>set (split_nl inp). NL \<notin> set l"
    unfolding split_nl_def using split_acc_no_newline[of "[]"] by auto
  have 5: "join_nl (split_nl inp) = inp" "length (split_nl inp) = Suc (count_list inp NL)"
    by (simp_all add: split_nl_def join_split_acc length_split_acc)
  have 6: "length (enumerate_from 1 (split_nl inp)) = length (split_nl inp)"
    by (rule length_enumerate_from)
  have 7: "\<forall>k<length (split_nl inp).
         enumerate_from 1 (split_nl inp) ! k = (int k + 1, split_nl inp ! k)"
    by (simp add: nth_enumerate_from add.commute)
  show ?thesis using 1 2 3 4 5 6 7 by blast
qed

text \<open>A text of two lines without a final newline.\<close>

theorem scantext_scans_each_line_once_witness:
  "scantext (str ''ab'' @ NL # str ''c0ffee'') [TStr (str ''f'')] (fresh hex 4 6 False)
     = Done (scan_each [(str ''ab'' @ [NL], [TStr (str ''f''), TInt 1]),
                        (str ''c0ffee'' @ [NL], [TStr (str ''f''), TInt 2])]
               (fresh hex 4 6 False))
   \<and> split_nl (str ''ab'' @ NL # str ''c0ffee'') = [str ''ab'', str ''c0ffee'']
   \<and> enumerate_from 1 (split_nl (str ''ab'' @ NL # str ''c0ffee'')) ! 1 = (2, str ''c0ffee'')"
proof -
  let ?s = "fresh hex 4 6 False"
  let ?inp = "str ''ab'' @ NL # str ''c0ffee''"
  have a: "(\<forall>c\<in>set (chars ?s). c < 128) \<and> 0 \<le> maxlen ?s"
    by (simp add: fresh_def hex_def str_def)
  have sp: "split_nl ?inp = [str ''ab'', str ''c0ffee'']"
    by (simp add: split_nl_def str_def NL_def)
  from scantext_scans_each_line_once[where inp = ?inp and t = "[TStr (str ''f'')]" and s = ?s] a
  have "scantext ?inp [TStr (str ''f'')] ?s
          = Done (scan_each (map (\<lambda>(k, line). (line @ [NL], [TStr (str ''f'')] @ [TInt k]))
                                 (enumerate_from 1 (split_nl ?inp))) ?s)"
    and "\<forall>k<length (split_nl ?inp).
           enumerate_from 1 (split_nl ?inp) ! k = (int k + 1, split_nl ?inp ! k)"
    by blast+
  then show ?thesis unfolding sp by simp
qed

text \<open>
  C9 as stated fails where a call raises. With \<open>maxlen = -1\<close> the text of the two
  lines \<open>a\<close> and \<open>a\<close> raises \<open>ValueError\<close> at the first line. With the
  alphabet of \<open>a\<close> and U+00E9 and the bounds 1 and 5, the text of the two lines
  U+00E9 and \<open>aa\<close> raises at the first line and records nothing, while a scan
  of every line records \<open>aa\<close> for line 2.
\<close>

theorem scantext_scans_each_line_once_counterexample:
  "scantext (str ''a'' @ NL # str ''a'') [] (fresh (str ''a'') 1 (- 1) False)
     = Raised ValueError (fresh (str ''a'') 1 (- 1) False)
   \<and> split_nl (str ''a'' @ NL # str ''a'') = [str ''a'', str ''a'']
   \<and> scantext (233 # NL # str ''aa'') [] (fresh [97, 233] 1 5 False)
     = Raised UnicodeDecodeError (fresh [97, 233] 1 5 False)
   \<and> scan_each [([233, NL], [TInt 1]), (str ''aa'' @ [NL], [TInt 2])] (fresh [97, 233] 1 5 False)
     = add_diamond (str ''aa'') [TInt 2] (fresh [97, 233] 1 5 False)"
  by (simp add: eval_all)

text \<open>
  C10 (as amended). The alphabet does not hold the newline, and the text ends with
  a run of alphabet characters below 128, of a length within the bounds, after
  nothing or after a character outside the alphabet. When the scan of the text
  before the run returns, the scan of the whole text returns, and the last match
  it records is that run, under the tag extended by the number of the last line.
  The scan of the text before the run returns whenever the whole alphabet is below
  128.
\<close>

theorem scantext_flushes_final_run:
  assumes nl: "NL \<notin> set (chars s)"
    and pre: "pre = [] \<or> last pre \<notin> set (chars s)"
    and r: "r \<noteq> []" "set r \<subseteq> set (chars s)" "\<forall>c\<in>set r. c < 128"
    and len: "minlen s \<le> int (length r)" "int (length r) \<le> maxlen s"
  shows "(returns (scantext pre t s) \<longrightarrow>
            (\<exists>s1. scantext (pre @ r) t s
               = Done (add_diamond r (t @ [TInt (int (length (split_nl (pre @ r))))]) s1)))
         \<and> ((\<forall>c\<in>set (chars s). c < 128) \<longrightarrow> returns (scantext pre t s))"
proof -
  let ?L = "split_acc [] pre"
  let ?q = "last ?L"
  let ?n = "int (length (split_nl (pre @ r)))"
  let ?t = "t @ [TInt ?n]"
  have m0: "0 \<le> maxlen s" using len by simp
  have nlr: "NL \<notin> set r" using r nl by blast
  have sp: "split_nl (pre @ r) = butlast ?L @ [?q @ r]"
    unfolding split_nl_def by (rule split_acc_append_run[OF nlr])
  have n: "1 + int (length (butlast ?L)) = ?n"
    unfolding sp by simp
  have 1: "\<exists>s1. scantext (pre @ r) t s = Done (add_diamond r ?t s1)"
    if ret: "returns (scantext pre t s)"
  proof -
    have e: "scantext pre t s
              = obind (scantext_loop 1 (butlast ?L) t s)
                  (\<lambda>s'. obind (scanline (?q @ [NL]) ?t s') Done)"
    proof -
      have "scantext pre t s = scantext_loop 1 (butlast ?L @ [?q]) t s"
        by (simp add: scantext_def split_nl_def split_acc_nonempty)
      also have "\<dots> = obind (scantext_loop 1 (butlast ?L) t s)
                        (scantext_loop ?n [?q] t)"
        unfolding scantext_loop_append n ..
      also have "scantext_loop ?n [?q] t = (\<lambda>s'. obind (scanline (?q @ [NL]) ?t s') Done)"
        by (rule ext) (simp add: scantext_loop_Nil)
      finally show ?thesis .
    qed
    obtain s' where s': "scantext_loop 1 (butlast ?L) t s = Done s'"
      using ret unfolding e by (cases "scantext_loop 1 (butlast ?L) t s") auto
    obtain s2 where s2: "scanline (?q @ [NL]) ?t s' = Done s2"
      using ret unfolding e s' by (cases "scanline (?q @ [NL]) ?t s'") auto
    from scanline_prefix_returns[OF s2] obtain s1 where s1: "scanline ?q ?t s' = Done s1"
      by blast
    have "extends s (state_of (scantext_loop 1 (butlast ?L) t s))"
      by (rule scantext_loop_stable) (use extends_stable_fs in \<open>simp add: stable_fs_def\<close>)
    then have cfg: "chars s' = chars s" "minlen s' = minlen s" "maxlen s' = maxlen s"
      unfolding s' by (simp_all add: extends_def)
    have q: "?q = [] \<or> last ?q \<notin> set (chars s')"
    proof (cases "pre = []")
      case True
      then show ?thesis by simp
    next
      case False
      with pre have "last pre \<notin> set (chars s)" by simp
      with last_split_acc[of "[]" pre] show ?thesis by (auto simp: cfg)
    qed
    have tk: "take (nat (maxlen s')) r = r" using len by (simp add: cfg)
    from scanline_flush[OF q _ r(3) _ s1, of NL] r(2) nl len
    have fin: "scanline ((?q @ r) @ [NL]) ?t s' = Done (add_diamond r ?t s1)"
      unfolding tk by (simp add: cfg min_def)
    have "scantext (pre @ r) t s = scantext_loop 1 (butlast ?L @ [?q @ r]) t s"
      unfolding scantext_def sp ..
    also have "\<dots> = obind (scantext_loop 1 (butlast ?L) t s)
                        (scantext_loop ?n [?q @ r] t)"
      unfolding scantext_loop_append n ..
    also have "\<dots> = Done (add_diamond r ?t s1)"
      unfolding s' using fin by simp
    finally show ?thesis by blast
  qed
  have 2: "returns (scantext pre t s)" if "\<forall>c\<in>set (chars s). c < 128"
    using scantext_loop_total[OF that m0, of 1 "split_nl pre" t]
    by (auto simp: scantext_def)
  show ?thesis using 1 2 by blast
qed

text \<open>A text of two lines that ends with the run \<open>c0ffee\<close> and no newline.\<close>

theorem scantext_flushes_final_run_witness:
  "scantext (str ''ab'' @ NL # str ''x c0ffee'') [] (fresh hex 4 6 False)
     = Done (add_diamond (str ''c0ffee'') [TInt 2] (fresh hex 4 6 False))
   \<and> returns (scantext (str ''ab'' @ NL # str ''x '') [] (fresh hex 4 6 False))"
proof -
  let ?s = "fresh hex 4 6 False"
  let ?pre = "str ''ab'' @ NL # str ''x ''"
  have "(returns (scantext ?pre [] ?s) \<longrightarrow>
          (\<exists>s1. scantext (?pre @ str ''c0ffee'') [] ?s
             = Done (add_diamond (str ''c0ffee'')
                       ([] @ [TInt (int (length (split_nl (?pre @ str ''c0ffee''))))]) s1)))
        \<and> ((\<forall>c\<in>set (chars ?s). c < 128) \<longrightarrow> returns (scantext ?pre [] ?s))"
    by (rule scantext_flushes_final_run) (simp_all add: fresh_def hex_def str_def NL_def)
  moreover have "\<forall>c\<in>set (chars ?s). c < 128"
    by (simp add: fresh_def hex_def str_def)
  moreover have "scantext (str ''ab'' @ NL # str ''x c0ffee'') [] ?s
     = Done (add_diamond (str ''c0ffee'') [TInt 2] ?s)"
    by (simp add: eval_all)
  ultimately show ?thesis by blast
qed

text \<open>
  C10 as stated fails in two ways. With the newline in the alphabet (\<open>a\<close> and
  newline, bounds 1 and 5) the appended newline ends no run, and the text \<open>aa\<close>
  records nothing. With the alphabet U+00E9 (bounds 1 and 1) the text of that one
  character raises and records nothing.
\<close>

theorem scantext_flushes_final_run_counterexample:
  "scantext (str ''aa'') [] (fresh (str ''a'' @ [NL]) 1 5 False)
     = Done (fresh (str ''a'' @ [NL]) 1 5 False)
   \<and> scantext [233] [] (fresh [233] 1 1 False)
     = Raised UnicodeDecodeError (fresh [233] 1 1 False)"
  by (simp add: eval_all)

section \<open>Scanning a stream\<close>

text \<open>
  A stream that ends, whose reads before some point all give non-empty lines that
  scan without an exception, and whose next read fails to decode:
  \<open>scanstream\<close> logs one warning with the number of the failed read and the
  tag, changes nothing else, and goes on with the rest of the stream, numbered from
  the number after the failed read.
\<close>

lemma scanstream_skips_undecodable_line:
  assumes "\<forall>x\<in>set pre. x \<noteq> Line []" and "scanstream pre t s = Done s1"
  shows "scanstream (pre @ DecodeFail # post) t s
           = scanstream_loop (int (length pre) + 2) post t
               (s1\<lparr>warnings := warnings s1 @ [(int (length pre) + 1, t)]\<rparr>)
         \<and> scanstream (pre @ [DecodeFail]) t s
           = Done (s1\<lparr>warnings := warnings s1 @ [(int (length pre) + 1, t)]\<rparr>)"
  using assms(2) scanstream_loop_append[OF assms(1), of 1]
  by (simp add: scanstream_def add.commute)

text \<open>
  Three reads: a line, a failure, a line. The second match has line number 3, and
  the warning has line number 2.
\<close>

lemma scanstream_skips_undecodable_line_example:
  "scanstream [Line (str ''c0ffee'' @ [NL]), DecodeFail, Line (str ''c0ffee'' @ [NL])]
              [TStr (str ''f'')] (fresh hex 4 6 False)
     = Done ((fresh hex 4 6 False)
              \<lparr>index := [str ''c0ffee'' \<mapsto> [[TStr (str ''f''), TInt 1], [TStr (str ''f''), TInt 3]]],
               warnings := [(2, [TStr (str ''f'')])],
               recorded := [(str ''c0ffee'', [TStr (str ''f''), TInt 1]),
                            (str ''c0ffee'', [TStr (str ''f''), TInt 3])]\<rparr>)"
proof -
  let ?s = "fresh hex 4 6 False"
  let ?s1 = "add_diamond (str ''c0ffee'') [TStr (str ''f''), TInt 1] ?s"
  have a: "\<forall>x\<in>set [Line (str ''c0ffee'' @ [NL])]. x \<noteq> Line []"
    by (simp add: str_def)
  have b: "scanstream [Line (str ''c0ffee'' @ [NL])] [TStr (str ''f'')] ?s = Done ?s1"
    by (simp add: eval_all)
  from scanstream_skips_undecodable_line[OF a b, where post = "[Line (str ''c0ffee'' @ [NL])]"]
  show ?thesis by (simp add: eval_all)
qed

text \<open>
  C6. A read that fails to decode should cost the line it was reading, and the scan
  should go on with the next line. The loop counts one line for one failed call of
  \<open>readline\<close> and calls again. A UTF-8 file stream does not fail line by line.
  For the file of the bytes \<open>abc\<close> and E2, a truncated sequence at the end,
  every call fails: the loop never returns. For the file of the three lines
  \<open>c0ffee\<close>, the byte FF, and \<open>c0ffee\<close>, the first call fails for the whole
  file and the second gives the empty string: the loop warns about line 1 and
  returns, and the two good lines are not scanned.
\<close>

theorem scanstream_failed_read_is_not_a_line:
  "scanstream_any always_fails 1 () [TStr (str ''f'')] (fresh hex 4 6 False) = None
   \<and> scanstream_any list_readline 1 [DecodeFail] [TStr (str ''f'')] (fresh hex 4 6 False)
       = Some (Done ((fresh hex 4 6 False)\<lparr>warnings := [(1, [TStr (str ''f'')])]\<rparr>))"
  by (simp add: scanstream_any_always_fails scanstream_any_list fresh_def)

section \<open>Files\<close>

text \<open>
  C3. The extension check passes exactly when the file's extension is a member of
  neither the \<open>include\<close> argument nor the \<open>exclude\<close> argument (an absent
  argument has no members). A file that fails the check is not opened and not
  scanned: \<open>scanfile\<close> returns with the object unchanged. The file is handed to
  \<open>open\<close> exactly when the check passes.
\<close>

theorem check_extension_rejects_listed:
  "check_extension sys path inc exc
     = (path_suffix sys path \<notin> (case inc of None \<Rightarrow> {} | Some a \<Rightarrow> set (ext_members a))
        \<and> path_suffix sys path \<notin> (case exc of None \<Rightarrow> {} | Some a \<Rightarrow> set (ext_members a)))
   \<and> (\<not> check_extension sys path inc exc \<longrightarrow> scanfile sys path inc exc relp t s = Done s)
   \<and> opened (state_of (scanfile sys path inc exc relp t s))
       = (if check_extension sys path inc exc then opened s @ [path] else opened s)"
proof -
  have 1: "check_extension sys path inc exc
     = (path_suffix sys path \<notin> (case inc of None \<Rightarrow> {} | Some a \<Rightarrow> set (ext_members a))
        \<and> path_suffix sys path \<notin> (case exc of None \<Rightarrow> {} | Some a \<Rightarrow> set (ext_members a)))"
    by (simp add: check_extension_def Let_def split: option.split)
  have 2: "scanfile sys path inc exc relp t s = Done s" if "\<not> check_extension sys path inc exc"
    using that by (simp add: scanfile_def)
  have 3: "opened (state_of (scanfile sys path inc exc relp t s)) = opened s @ [path]"
    if "check_extension sys path inc exc"
    using that scanstream_stable[OF opened_stable]
    by (simp add: scanfile_def Let_def split: option.split)
  show ?thesis using 1 2 3 by simp
qed

text \<open>
  The path \<open>repo/a.txt\<close> with \<open>include = ['.txt']\<close> is rejected and not
  opened; so is \<open>repo/c.lock\<close> with \<open>exclude = '.lock'\<close>.
\<close>

theorem check_extension_rejects_listed_witness:
  "\<not> check_extension example_os (str ''repo/a.txt'') (Some (ExtList [str ''.txt''])) None
   \<and> scanfile example_os (str ''repo/a.txt'') (Some (ExtList [str ''.txt''])) None None []
        (fresh hex 4 6 False) = Done (fresh hex 4 6 False)
   \<and> \<not> check_extension example_os (str ''repo/c.lock'') None (Some (ExtStr (str ''.lock'')))
   \<and> opened (state_of (scanfile example_os (str ''repo/c.lock'') None
                 (Some (ExtStr (str ''.lock''))) None [] (fresh hex 4 6 False))) = []"
  using check_extension_rejects_listed
          [where sys = example_os and path = "str ''repo/a.txt''"
             and inc = "Some (ExtList [str ''.txt''])" and exc = None and relp = None
             and t = "[]" and s = "fresh hex 4 6 False"]
        check_extension_rejects_listed
          [where sys = example_os and path = "str ''repo/c.lock''"
             and inc = None and exc = "Some (ExtStr (str ''.lock''))" and relp = None
             and t = "[]" and s = "fresh hex 4 6 False"]
  by (simp add: example_os_def posix_suffix_def str_def fresh_def)

section \<open>The index\<close>

text \<open>
  C7. The index of a fresh object is empty. In the state after any sequence of
  operations on a fresh object, whether they returned or raised, a text is a key of
  the index exactly when a match with that text has been recorded. Recording a
  match binds its text to the old tags, or to none for a new key, followed by the
  new tag. Across any further operation a key stays and its tags stay, with tags
  added only at the end.
\<close>

theorem index_keys_are_recorded_matches:
  assumes "init cs lo hi notify = Done s0" and "s = run sys ops s0"
  shows "index s0 = Map.empty
         \<and> (d \<in> dom (index s)) = (d \<in> fst ` set (recorded s))
         \<and> index (add_diamond d t s)
             = (index s)(d \<mapsto> (case index s d of None \<Rightarrow> [] | Some ts \<Rightarrow> ts) @ [t])
         \<and> (\<forall>ts. index s d = Some ts \<longrightarrow>
               (\<exists>ts'. index (state_of (exec sys op s)) d = Some (ts @ ts')))"
proof -
  have s0: "s0 = fresh cs lo hi notify" using assms(1) by (simp add: init_def)
  have c: "consistent s" unfolding assms(2) s0 by (rule reachable_consistent)
  let ?s' = "state_of (exec sys op s)"
  have e: "extends s ?s'" by (rule exec_extends)
  then have c': "consistent ?s'" using c by (simp add: extends_def)
  from e obtain ms where ms: "recorded ?s' = recorded s @ ms" by (auto simp: extends_def)
  have 1: "index s0 = Map.empty" by (simp add: s0 fresh_def)
  have 2: "(d \<in> dom (index s)) = (d \<in> fst ` set (recorded s))"
    using c index_of_dom[of "recorded s" d] by (auto simp: consistent_def dom_def)
  have 4: "\<exists>ts'. index ?s' d = Some (ts @ ts')" if "index s d = Some ts" for ts
  proof -
    have "ts = tags_of d (recorded s)" and ne: "tags_of d (recorded s) \<noteq> []"
      using that c by (auto simp: consistent_def index_of_def split: if_splits)
    moreover have "index ?s' d = Some (tags_of d (recorded s) @ tags_of d ms)"
      using c' ne by (simp add: consistent_def index_of_def ms tags_of_append)
    ultimately show ?thesis by blast
  qed
  show ?thesis using 1 2 4 add_diamond_index by blast
qed

text \<open>After scanning \<open>repo/a.txt\<close> the text \<open>c0ffee\<close> is a key.\<close>

theorem index_keys_are_recorded_matches_witness:
  "str ''c0ffee'' \<in> dom (index (run example_os
       [OpScanfile (str ''repo/a.txt'') None None None []] (fresh hex 4 6 False)))
   \<and> str ''c0ff'' \<notin> dom (index (run example_os
       [OpScanfile (str ''repo/a.txt'') None None None []] (fresh hex 4 6 False)))"
proof -
  let ?ops = "[OpScanfile (str ''repo/a.txt'') None None None []]"
  let ?s = "run example_os ?ops (fresh hex 4 6 False)"
  have i: "init hex 4 6 False = Done (fresh hex 4 6 False)" by (simp add: init_def)
  have r: "recorded ?s = [(str ''c0ffee'', [TStr (str ''repo/a.txt''), TInt 1])]"
    by (simp add: eval_all)
  from index_keys_are_recorded_matches[OF i refl, where sys = example_os and ops = ?ops
         and d = "str ''c0ffee''"]
  have "(str ''c0ffee'' \<in> dom (index ?s)) = (str ''c0ffee'' \<in> fst ` set (recorded ?s))"
    by blast
  moreover
  from index_keys_are_recorded_matches[OF i refl, where sys = example_os and ops = ?ops
         and d = "str ''c0ff''"]
  have "(str ''c0ff'' \<in> dom (index ?s)) = (str ''c0ff'' \<in> fst ` set (recorded ?s))"
    by blast
  ultimately show ?thesis unfolding r by (simp add: str_def)
qed



end
